theory Spec2Isabelle
  imports Complex_Main
begin

section \<open>Numbers\<close>

text \<open>
  The program computes on C \<open>float\<close>s and \<open>double\<close>s and on 32-bit \<open>int\<close>s.

  Floating point values are an arbitrary type \<open>'f\<close> that carries the syntax of
  \<open>+\<close>, \<open>-\<close>, \<open>*\<close>, \<open>/\<close>, \<open><\<close> and \<open>0\<close> and nothing else: no law of
  arithmetic is assumed of it, so whatever is proved for every \<open>'f\<close> holds for
  the machine's arithmetic too (each operation is a function of its operands).
  What the C library and the compiler add is collected in an environment:
  the value of a literal or of an integer converted to floating point (\<open>fl\<close>),
  \<open>roundf\<close>, the cast to \<open>int\<close>, \<open>sqrt\<close>, \<open>cos\<close> and \<open>sin\<close>. The difference
  between \<open>float\<close> and \<open>double\<close> is not modelled. Two arithmetics are given:
  \<open>exact\<close>, the real numbers, below, and \<open>ieee32\<close>, the binary32 numbers with
  their rounding, further down.
\<close>

record 'f fenv =
  fl :: "real \<Rightarrow> 'f"
  roundf :: "'f \<Rightarrow> 'f"
  to_int :: "'f \<Rightarrow> int"
  sqrt_f :: "'f \<Rightarrow> 'f"
  cos_f :: "'f \<Rightarrow> 'f"
  sin_f :: "'f \<Rightarrow> 'f"

text \<open>
  The exact environment: floating point idealised as the real numbers.
  \<open>roundf\<close> rounds halfway cases away from zero, the cast truncates towards zero.
\<close>

definition c_roundf :: "real \<Rightarrow> real" where
  "c_roundf x = (if 0 \<le> x then of_int \<lfloor>x + 1 / 2\<rfloor> else - of_int \<lfloor>- x + 1 / 2\<rfloor>)"

definition c_trunc :: "real \<Rightarrow> int" where
  "c_trunc x = (if 0 \<le> x then \<lfloor>x\<rfloor> else - \<lfloor>- x\<rfloor>)"

definition exact :: "real fenv" where
  "exact = \<lparr>fl = (\<lambda>x. x), roundf = c_roundf, to_int = c_trunc,
             sqrt_f = sqrt, cos_f = cos, sin_f = sin\<rparr>"

text \<open>
  A C \<open>int\<close> is an \<open>int\<close> of HOL; where a sum or a product can leave the 32-bit
  range it is wrapped around (\<open>int32\<close>), which is what the compiled code
  computes. \<open>c_rem\<close> is C's \<open>%\<close>, the remainder of the division that truncates
  towards zero.
\<close>

definition INT_MAX :: int where
  "INT_MAX = 2147483647"

definition int32 :: "int \<Rightarrow> int" where
  "int32 x = (x + 2147483648) mod 4294967296 - 2147483648"

definition c_rem :: "int \<Rightarrow> int \<Rightarrow> int" where
  "c_rem a b = a - b * (sgn a * sgn b * (\<bar>a\<bar> div \<bar>b\<bar>))"

section \<open>vectorize.h\<close>

text \<open>
  Modelled from the spec: \<open>vectorize.h\<close>, which declares \<open>fvec4\<close> and \<open>dot3\<close>, is
  not among the sources. An \<open>fvec4\<close> is four floating point lanes, its \<open>-\<close> is
  lane-wise, \<open>v[i]\<close> reads lane \<open>i\<close> and \<open>dot3\<close> is the dot product of the first
  three lanes (the spec's squared distance is \<open>dot3 d d\<close> for a difference \<open>d\<close>).
\<close>

datatype 'f fvec4 = fvec4 'f 'f 'f 'f

fun vsub :: "'f::minus fvec4 \<Rightarrow> 'f fvec4 \<Rightarrow> 'f fvec4" where
  "vsub (fvec4 a0 a1 a2 a3) (fvec4 b0 b1 b2 b3) = fvec4 (a0 - b0) (a1 - b1) (a2 - b2) (a3 - b3)"

fun dot3 :: "'f::{plus,times} fvec4 \<Rightarrow> 'f fvec4 \<Rightarrow> 'f" where
  "dot3 (fvec4 a0 a1 a2 a3) (fvec4 b0 b1 b2 b3) = a0 * b0 + a1 * b1 + a2 * b2"

fun lane :: "'f fvec4 \<Rightarrow> nat \<Rightarrow> 'f" where
  "lane (fvec4 a0 a1 a2 a3) i = (if i = 0 then a0 else if i = 1 then a1 else if i = 2 then a2 else a3)"

section \<open>asa\_frame\<close>

text \<open>
  A \<open>float*\<close> or \<open>int*\<close> argument is the function from the index to the element.
  The arrays of documented shape \<open>[n, 3]\<close> (\<open>frame\<close>, \<open>sphere_points\<close>,
  \<open>centered_sphere_points\<close>) are read at \<open>3 * i + c\<close> with a natural number
  \<open>i\<close> below the row count; the output grid is indexed by an \<open>int\<close>, so that a
  store below index 0 is a store the model sees. Loop counters that run from 0
  to a bound are natural numbers.

  \<open>exit(1)\<close> is the error \<open>AtomsOnTop\<close>; the division \<open>k % 0\<close> would be
  \<open>DivideByZero\<close>.
\<close>

datatype error = AtomsOnTop | DivideByZero

type_synonym 'f farray = "nat \<Rightarrow> 'f"
type_synonym 'f grid = "int \<Rightarrow> 'f"

text \<open>Lines 50 and 200: \<open>counts[0] * counts[1] * counts[2]\<close>.\<close>

definition total_grid_points :: "(nat \<Rightarrow> int) \<Rightarrow> int" where
  "total_grid_points counts = int32 (int32 (counts 0 * counts 1) * counts 2)"

text \<open>Lines 53 to 55: the loop that zeroes the grid, from index \<open>i\<close> on.\<close>

function zero_grid :: "int \<Rightarrow> int \<Rightarrow> ('f::zero) grid \<Rightarrow> 'f grid" where
  "zero_grid i n_total out_grid =
     (if i < n_total then zero_grid (i + 1) n_total (out_grid(i := 0)) else out_grid)"
  by pat_completeness auto
termination
  by (relation "measure (\<lambda>(i, n_total, out_grid). nat (n_total - i))") auto

text \<open>\<open>fvec4(frame[i*3], frame[i*3+1], frame[i*3+2], 0)\<close>, lines 66, 74 and 115.\<close>

definition r_at :: "('f::zero) farray \<Rightarrow> nat \<Rightarrow> 'f fvec4" where
  "r_at frame i = fvec4 (frame (i * 3)) (frame (i * 3 + 1)) (frame (i * 3 + 2)) 0"

text \<open>Lines 75 and 81: \<open>r2\<close>, the squared distance of the atoms \<open>i\<close> and \<open>j\<close>.\<close>

definition r2_atoms :: "('f::{zero,plus,minus,times}) farray \<Rightarrow> nat \<Rightarrow> nat \<Rightarrow> 'f" where
  "r2_atoms frame i j = (let r_ij = vsub (r_at frame i) (r_at frame j) in dot3 r_ij r_ij)"

text \<open>Lines 79 and 80: \<open>radius_cutoff2\<close>.\<close>

definition radius_cutoff2 :: "('f::{plus,times}) farray \<Rightarrow> nat \<Rightarrow> nat \<Rightarrow> 'f" where
  "radius_cutoff2 atom_radii i j =
     (let radius_cutoff = atom_radii i + atom_radii j in radius_cutoff * radius_cutoff)"

text \<open>
  Lines 71 to 91, the body of the loop over \<open>j\<close>. The state is the buffer
  \<open>neighbor_indices\<close> and the running count \<open>n_neighbor_indices\<close>.
\<close>

definition neighbor_step ::
  "'f fenv \<Rightarrow> ('f::{zero,plus,minus,times,ord}) farray \<Rightarrow> 'f farray \<Rightarrow> nat \<Rightarrow> nat \<Rightarrow>
     (nat \<Rightarrow> nat) \<times> nat \<Rightarrow> error + (nat \<Rightarrow> nat) \<times> nat" where
  "neighbor_step F frame atom_radii i j s =
     (case s of (neighbor_indices, n_neighbor_indices) \<Rightarrow>
        if i = j then Inr s
        else
          let r2 = r2_atoms frame i j;
              s' = (if r2 < radius_cutoff2 atom_radii i j
                    then (neighbor_indices(n_neighbor_indices := j), n_neighbor_indices + 1)
                    else s)
          in if r2 < fl F (1 / 10 ^ 10) then Inl AtomsOnTop else Inr s')"

text \<open>Lines 70 to 92: the loop over \<open>j\<close>, from \<open>j\<close> on.\<close>

function neighbor_loop ::
  "'f fenv \<Rightarrow> ('f::{zero,plus,minus,times,ord}) farray \<Rightarrow> nat \<Rightarrow> 'f farray \<Rightarrow> nat \<Rightarrow> nat \<Rightarrow>
     (nat \<Rightarrow> nat) \<times> nat \<Rightarrow> error + (nat \<Rightarrow> nat) \<times> nat" where
  "neighbor_loop F frame n_atoms atom_radii i j s =
     (if j < n_atoms then
        (case neighbor_step F frame atom_radii i j s of
           Inl e \<Rightarrow> Inl e
         | Inr s' \<Rightarrow> neighbor_loop F frame n_atoms atom_radii i (j + 1) s')
      else Inr s)"
  by pat_completeness auto
termination
  by (relation "measure (\<lambda>(F, frame, n_atoms, atom_radii, i, j, s). n_atoms - j)") auto

text \<open>Lines 95 to 99: the sphere points centred on atom \<open>i\<close>, from point \<open>j\<close> on.\<close>

function center_loop ::
  "('f::{plus,times}) farray \<Rightarrow> 'f \<Rightarrow> nat \<Rightarrow> 'f farray \<Rightarrow> nat \<Rightarrow> nat \<Rightarrow> 'f farray \<Rightarrow> 'f farray" where
  "center_loop frame atom_radius_i i sphere_points n_sphere_points j centered_sphere_points =
     (if j < n_sphere_points then
        center_loop frame atom_radius_i i sphere_points n_sphere_points (j + 1)
          (centered_sphere_points
             (3 * j := frame (3 * i) + atom_radius_i * sphere_points (3 * j),
              3 * j + 1 := frame (3 * i + 1) + atom_radius_i * sphere_points (3 * j + 1),
              3 * j + 2 := frame (3 * i + 2) + atom_radius_i * sphere_points (3 * j + 2)))
      else centered_sphere_points)"
  by pat_completeness auto
termination
  by (relation "measure (\<lambda>(frame, r, i, sp, n_sphere_points, j, c). n_sphere_points - j)") auto

text \<open>Line 105: the point \<open>j\<close> of the buffer, as a vector.\<close>

definition point_at :: "('f::zero) farray \<Rightarrow> nat \<Rightarrow> 'f fvec4" where
  "point_at centered_sphere_points j =
     fvec4 (centered_sphere_points (3 * j)) (centered_sphere_points (3 * j + 1))
           (centered_sphere_points (3 * j + 2)) 0"

text \<open>
  Lines 112 to 116: the test of the point \<open>r_j\<close> against the neighbour at
  position \<open>k_prime\<close> of the list.
\<close>

definition blocked_by ::
  "('f::{zero,plus,minus,times,ord}) farray \<Rightarrow> 'f farray \<Rightarrow> (nat \<Rightarrow> nat) \<Rightarrow> 'f fvec4 \<Rightarrow> nat \<Rightarrow> bool" where
  "blocked_by frame atom_radii neighbor_indices r_j k_prime =
     (let r = atom_radii (neighbor_indices k_prime);
          index = neighbor_indices k_prime;
          r_jk = vsub r_j (r_at frame index)
      in dot3 r_jk r_jk < r * r)"

text \<open>
  Lines 110 to 121: the loop over \<open>k\<close>, from \<open>k\<close> on, up to \<open>bound\<close>. The result
  is the \<open>k\<close> of the \<open>break\<close>, or \<open>None\<close> when the loop runs out.
\<close>

function scan_neighbors ::
  "('f::{zero,plus,minus,times,ord}) farray \<Rightarrow> 'f farray \<Rightarrow> (nat \<Rightarrow> nat) \<Rightarrow> nat \<Rightarrow> 'f fvec4 \<Rightarrow>
     int \<Rightarrow> int \<Rightarrow> error + int option" where
  "scan_neighbors frame atom_radii neighbor_indices n_neighbor_indices r_j k bound =
     (if k < bound then
        if n_neighbor_indices = 0 then Inl DivideByZero
        else
          let k_prime = c_rem k (int n_neighbor_indices) in
          if blocked_by frame atom_radii neighbor_indices r_j (nat k_prime) then Inr (Some k)
          else scan_neighbors frame atom_radii neighbor_indices n_neighbor_indices r_j (k + 1) bound
      else Inr None)"
  by pat_completeness auto
termination
  by (relation "measure (\<lambda>(frame, atom_radii, nb, n, r_j, k, bound). nat (bound - k))") auto

text \<open>
  Lines 104 to 121 for one point: \<open>is_accessible\<close> and the new
  \<open>k_closest_neighbor\<close>.
\<close>

definition classify_point ::
  "('f::{zero,plus,minus,times,ord}) farray \<Rightarrow> 'f farray \<Rightarrow> (nat \<Rightarrow> nat) \<Rightarrow> nat \<Rightarrow> 'f fvec4 \<Rightarrow>
     int \<Rightarrow> error + bool \<times> int" where
  "classify_point frame atom_radii neighbor_indices n_neighbor_indices r_j k_closest_neighbor =
     (case scan_neighbors frame atom_radii neighbor_indices n_neighbor_indices r_j
             k_closest_neighbor (int32 (int n_neighbor_indices + k_closest_neighbor)) of
        Inl e \<Rightarrow> Inl e
      | Inr (Some k) \<Rightarrow> Inr (False, k)
      | Inr None \<Rightarrow> Inr (True, k_closest_neighbor))"

text \<open>Lines 125 to 132: the voxel of a point along one axis.\<close>

definition voxel :: "('f::{times,inverse}) fenv \<Rightarrow> 'f \<Rightarrow> 'f \<Rightarrow> int" where
  "voxel F grid_spacing c =
     (let x = roundf F (c / grid_spacing) * grid_spacing in to_int F (x / grid_spacing))"

text \<open>Line 135: the bounds check.\<close>

definition in_bounds :: "(nat \<Rightarrow> int) \<Rightarrow> int \<Rightarrow> int \<Rightarrow> int \<Rightarrow> bool" where
  "in_bounds counts ix iy iz \<longleftrightarrow>
     ix \<ge> 0 \<and> ix < counts 0 \<and> iy \<ge> 0 \<and> iy < counts 1 \<and> iz \<ge> 0 \<and> iz < counts 2"

text \<open>Line 137: \<open>iz * counts[1] * counts[0] + iy * counts[0] + ix\<close>.\<close>

definition grid_index :: "(nat \<Rightarrow> int) \<Rightarrow> int \<Rightarrow> int \<Rightarrow> int \<Rightarrow> int" where
  "grid_index counts ix iy iz =
     int32 (int32 (int32 (int32 (iz * counts 1) * counts 0) + int32 (iy * counts 0)) + ix)"

text \<open>Lines 123 to 145: what an accessible point does to the grid.\<close>

definition deposit ::
  "('f::{plus,times,inverse}) fenv \<Rightarrow> (nat \<Rightarrow> int) \<Rightarrow> 'f \<Rightarrow> 'f \<Rightarrow> 'f \<Rightarrow> 'f fvec4 \<Rightarrow> 'f grid \<Rightarrow> 'f grid" where
  "deposit F counts grid_spacing constant atom_radius_i r_j out_grid =
     (let ix = voxel F grid_spacing (lane r_j 0);
          iy = voxel F grid_spacing (lane r_j 1);
          iz = voxel F grid_spacing (lane r_j 2)
      in if in_bounds counts ix iy iz then
           let value = constant * atom_radius_i * atom_radius_i
           in out_grid(grid_index counts ix iy iz := out_grid (grid_index counts ix iy iz) + value)
         else out_grid)"

text \<open>
  Lines 103 to 146: the loop over the sphere points, from point \<open>j\<close> on. The
  state is \<open>k_closest_neighbor\<close> and the grid.
\<close>

function points_loop ::
  "('f::{zero,plus,minus,times,inverse,ord}) fenv \<Rightarrow> 'f farray \<Rightarrow> 'f farray \<Rightarrow> (nat \<Rightarrow> nat) \<Rightarrow> nat \<Rightarrow>
     'f farray \<Rightarrow> nat \<Rightarrow> (nat \<Rightarrow> int) \<Rightarrow> 'f \<Rightarrow> 'f \<Rightarrow> 'f \<Rightarrow> nat \<Rightarrow> int \<times> 'f grid \<Rightarrow>
     error + int \<times> 'f grid" where
  "points_loop F frame atom_radii neighbor_indices n_neighbor_indices centered_sphere_points
       n_sphere_points counts grid_spacing constant atom_radius_i j s =
     (if j < n_sphere_points then
        (case s of (k_closest_neighbor, out_grid) \<Rightarrow>
           let r_j = point_at centered_sphere_points j in
           (case classify_point frame atom_radii neighbor_indices n_neighbor_indices r_j
                   k_closest_neighbor of
              Inl e \<Rightarrow> Inl e
            | Inr (is_accessible, k') \<Rightarrow>
                points_loop F frame atom_radii neighbor_indices n_neighbor_indices
                  centered_sphere_points n_sphere_points counts grid_spacing constant atom_radius_i
                  (j + 1)
                  (k', if is_accessible
                       then deposit F counts grid_spacing constant atom_radius_i r_j out_grid
                       else out_grid)))
      else Inr s)"
  by pat_completeness auto
termination
  by (relation "measure (\<lambda>(F, frame, radii, nb, n, c, n_sphere_points, counts, g, cst, r, j, s).
        n_sphere_points - j)") auto

text \<open>
  Lines 60 to 146, the body of the loop over the atoms. The state is the two
  work buffers and the grid.
\<close>

definition atom_step ::
  "('f::{zero,plus,minus,times,inverse,ord}) fenv \<Rightarrow> 'f farray \<Rightarrow> nat \<Rightarrow> 'f farray \<Rightarrow> 'f farray \<Rightarrow> nat \<Rightarrow>
     (nat \<Rightarrow> int) \<Rightarrow> (nat \<Rightarrow> int) \<Rightarrow> 'f \<Rightarrow> 'f \<Rightarrow> nat \<Rightarrow>
     (nat \<Rightarrow> nat) \<times> 'f farray \<times> 'f grid \<Rightarrow> error + (nat \<Rightarrow> nat) \<times> 'f farray \<times> 'f grid" where
  "atom_step F frame n_atoms atom_radii sphere_points n_sphere_points atom_selection_mask counts
       grid_spacing constant i s =
     (case s of (neighbor_indices, centered_sphere_points, out_grid) \<Rightarrow>
        let in_selection = atom_selection_mask i in
        if in_selection = 0 then Inr s
        else
          let atom_radius_i = atom_radii i in
          (case neighbor_loop F frame n_atoms atom_radii i 0 (neighbor_indices, 0) of
             Inl e \<Rightarrow> Inl e
           | Inr (neighbor_indices', n_neighbor_indices) \<Rightarrow>
               let centered_sphere_points' =
                     center_loop frame atom_radius_i i sphere_points n_sphere_points 0
                       centered_sphere_points
               in (case points_loop F frame atom_radii neighbor_indices' n_neighbor_indices
                          centered_sphere_points' n_sphere_points counts grid_spacing constant
                          atom_radius_i 0 (0, out_grid) of
                     Inl e \<Rightarrow> Inl e
                   | Inr (k_closest_neighbor, out_grid') \<Rightarrow>
                       Inr (neighbor_indices', centered_sphere_points', out_grid'))))"

text \<open>Lines 59 to 147: the loop over the atoms, from atom \<open>i\<close> on.\<close>

function atoms_loop ::
  "('f::{zero,plus,minus,times,inverse,ord}) fenv \<Rightarrow> 'f farray \<Rightarrow> nat \<Rightarrow> 'f farray \<Rightarrow> 'f farray \<Rightarrow> nat \<Rightarrow>
     (nat \<Rightarrow> int) \<Rightarrow> (nat \<Rightarrow> int) \<Rightarrow> 'f \<Rightarrow> 'f \<Rightarrow> nat \<Rightarrow>
     (nat \<Rightarrow> nat) \<times> 'f farray \<times> 'f grid \<Rightarrow> error + (nat \<Rightarrow> nat) \<times> 'f farray \<times> 'f grid" where
  "atoms_loop F frame n_atoms atom_radii sphere_points n_sphere_points atom_selection_mask counts
       grid_spacing constant i s =
     (if i < n_atoms then
        (case atom_step F frame n_atoms atom_radii sphere_points n_sphere_points
                atom_selection_mask counts grid_spacing constant i s of
           Inl e \<Rightarrow> Inl e
         | Inr s' \<Rightarrow>
             atoms_loop F frame n_atoms atom_radii sphere_points n_sphere_points
               atom_selection_mask counts grid_spacing constant (i + 1) s')
      else Inr s)"
  by pat_completeness auto
termination
  by (relation "measure (\<lambda>(F, frame, n_atoms, radii, sp, n, mask, counts, g, cst, i, s).
        n_atoms - i)") auto

text \<open>Line 57: \<open>4.0f * M_PI / n_sphere_points\<close>.\<close>

definition area_constant :: "('f::{times,inverse}) fenv \<Rightarrow> nat \<Rightarrow> 'f" where
  "area_constant F n_sphere_points = fl F 4 * fl F pi / fl F (real n_sphere_points)"

text \<open>
  The function, lines 43 to 148. It returns the three buffers it writes:
  \<open>neighbor_indices\<close>, \<open>centered_sphere_points\<close> and \<open>out_grid\<close>.
\<close>

definition asa_frame ::
  "('f::{zero,plus,minus,times,inverse,ord}) fenv \<Rightarrow> 'f farray \<Rightarrow> nat \<Rightarrow> 'f farray \<Rightarrow> 'f farray \<Rightarrow> nat \<Rightarrow>
     (nat \<Rightarrow> nat) \<Rightarrow> 'f farray \<Rightarrow> (nat \<Rightarrow> int) \<Rightarrow> 'f grid \<Rightarrow> (nat \<Rightarrow> int) \<Rightarrow> 'f \<Rightarrow>
     error + (nat \<Rightarrow> nat) \<times> 'f farray \<times> 'f grid" where
  "asa_frame F frame n_atoms atom_radii sphere_points n_sphere_points neighbor_indices
       centered_sphere_points atom_selection_mask out_grid counts grid_spacing =
     (let out_grid' = zero_grid 0 (total_grid_points counts) out_grid;
          constant = area_constant F n_sphere_points
      in atoms_loop F frame n_atoms atom_radii sphere_points n_sphere_points atom_selection_mask
           counts grid_spacing constant 0 (neighbor_indices, centered_sphere_points, out_grid'))"

section \<open>Predicates of the properties\<close>

text \<open>
  Atom \<open>j\<close> is within the cutoff of atom \<open>i\<close>: another atom, at a squared
  distance below the square of the sum of the radii.
\<close>

definition within_cutoff ::
  "('f::{zero,plus,minus,times,ord}) farray \<Rightarrow> 'f farray \<Rightarrow> nat \<Rightarrow> nat \<Rightarrow> bool" where
  "within_cutoff frame atom_radii i j \<longleftrightarrow>
     j \<noteq> i \<and> r2_atoms frame i j < radius_cutoff2 atom_radii i j"

text \<open>Atom \<open>j\<close> is on top of atom \<open>i\<close>: another atom, at a squared distance below \<open>1e-10\<close>.\<close>

definition on_top ::
  "'f fenv \<Rightarrow> ('f::{zero,plus,minus,times,ord}) farray \<Rightarrow> nat \<Rightarrow> nat \<Rightarrow> bool" where
  "on_top F frame i j \<longleftrightarrow> j \<noteq> i \<and> r2_atoms frame i j < fl F (1 / 10 ^ 10)"

text \<open>
  The values that \<open>is_accessible\<close> has at line 123, one for each point from
  point \<open>j\<close> on: the loop of lines 103 to 146 without what it does to the grid.
\<close>

function accessible_flags ::
  "('f::{zero,plus,minus,times,ord}) farray \<Rightarrow> 'f farray \<Rightarrow> (nat \<Rightarrow> nat) \<Rightarrow> nat \<Rightarrow> 'f farray \<Rightarrow> nat \<Rightarrow>
     nat \<Rightarrow> int \<Rightarrow> error + bool list" where
  "accessible_flags frame atom_radii neighbor_indices n_neighbor_indices centered_sphere_points
       n_sphere_points j k_closest_neighbor =
     (if j < n_sphere_points then
        (case classify_point frame atom_radii neighbor_indices n_neighbor_indices
                (point_at centered_sphere_points j) k_closest_neighbor of
           Inl e \<Rightarrow> Inl e
         | Inr (is_accessible, k') \<Rightarrow>
             (case accessible_flags frame atom_radii neighbor_indices n_neighbor_indices
                     centered_sphere_points n_sphere_points (j + 1) k' of
                Inl e \<Rightarrow> Inl e
              | Inr flags \<Rightarrow> Inr (is_accessible # flags)))
      else Inr [])"
  by pat_completeness auto
termination
  by (relation "measure (\<lambda>(frame, radii, nb, n, c, n_sphere_points, j, k). n_sphere_points - j)") auto

text \<open>
  The naive classification of the spec: a linear scan of the whole neighbour
  list from position 0, for the point alone; the point is accessible when no
  neighbour of the list blocks it.
\<close>

definition naive_accessible ::
  "('f::{zero,plus,minus,times,ord}) farray \<Rightarrow> 'f farray \<Rightarrow> (nat \<Rightarrow> nat) \<Rightarrow> nat \<Rightarrow> 'f fvec4 \<Rightarrow> bool" where
  "naive_accessible frame atom_radii neighbor_indices n_neighbor_indices r_j \<longleftrightarrow>
     list_all (\<lambda>k. \<not> blocked_by frame atom_radii neighbor_indices r_j k) [0..<n_neighbor_indices]"

text \<open>
  An input on which the bound of the cyclic scan overflows: atom \<open>a\<close> at
  \<open>(a, 0, 0)\<close>, all radii \<open>1/2\<close>, the neighbour list \<open>1, 2, \<dots>, 65536\<close> of atom 0,
  and point \<open>j\<close> at \<open>(65536 - j, 0, 0)\<close>, the centre of atom \<open>65536 - j\<close>.
\<close>

definition line_frame :: "real farray" where
  "line_frame a = (if a mod 3 = 0 then real (a div 3) else 0)"

definition line_points :: "real farray" where
  "line_points a = (if a mod 3 = 0 then 65536 - real (a div 3) else 0)"

section \<open>generate\_sphere\_points\<close>

text \<open>Lines 172 to 180: the loop, from point \<open>i\<close> on.\<close>

function generate_loop ::
  "('f::{plus,minus,times,inverse}) fenv \<Rightarrow> nat \<Rightarrow> 'f \<Rightarrow> 'f \<Rightarrow> nat \<Rightarrow> 'f farray \<Rightarrow> 'f farray" where
  "generate_loop F n_points inc offset i sphere_points =
     (if i < n_points then
        let y = fl F (real i) * offset - fl F 1 + (offset / fl F 2);
            r = sqrt_f F (fl F 1 - y * y);
            phi = fl F (real i) * inc
        in generate_loop F n_points inc offset (i + 1)
             (sphere_points
                (3 * i := cos_f F phi * r,
                 3 * i + 1 := y,
                 3 * i + 2 := sin_f F phi * r))
      else sphere_points)"
  by pat_completeness auto
termination
  by (relation "measure (\<lambda>(F, n_points, inc, offset, i, sp). n_points - i)") auto

text \<open>The function, lines 151 to 181; it returns the array it fills.\<close>

definition generate_sphere_points ::
  "('f::{plus,minus,times,inverse}) fenv \<Rightarrow> 'f farray \<Rightarrow> nat \<Rightarrow> 'f farray" where
  "generate_sphere_points F sphere_points n_points =
     (let inc = fl F pi * (fl F 3 - sqrt_f F (fl F 5));
          offset = fl F 2 / fl F (real n_points)
      in generate_loop F n_points inc offset 0 sphere_points)"

section \<open>sasa\<close>

text \<open>
  \<open>xyzlist\<close> and \<open>out\<close> hold all frames; an element is addressed by its offset
  from the pointer, an \<open>int\<close>. Line 215: \<open>xyzlist + i*n_atoms*3\<close> as the array
  that \<open>asa_frame\<close> reads.
\<close>

definition frame_at :: "(int \<Rightarrow> 'f) \<Rightarrow> nat \<Rightarrow> nat \<Rightarrow> 'f farray" where
  "frame_at xyzlist n_atoms i = (\<lambda>a. xyzlist (int32 (int32 (int i * int n_atoms) * 3) + int a))"

text \<open>Line 217: the offset of \<open>out + i*total_grid_points\<close> from \<open>out\<close>.\<close>

definition grid_offset :: "(nat \<Rightarrow> int) \<Rightarrow> nat \<Rightarrow> int" where
  "grid_offset counts i = int32 (int i * total_grid_points counts)"

text \<open>
  Lines 214 to 218: the loop over the frames, from frame \<open>i\<close> on, in order (the
  build without OpenMP). The state is the two work buffers and \<open>out\<close>.
  \<open>asa_frame\<close> works on \<open>out\<close> shifted by the offset of the frame, and all it
  stores is stored in \<open>out\<close>.
\<close>

function frames_loop ::
  "('f::{zero,plus,minus,times,inverse,ord}) fenv \<Rightarrow> nat \<Rightarrow> nat \<Rightarrow> (int \<Rightarrow> 'f) \<Rightarrow> 'f farray \<Rightarrow>
     'f farray \<Rightarrow> nat \<Rightarrow> (nat \<Rightarrow> int) \<Rightarrow> (nat \<Rightarrow> int) \<Rightarrow> 'f \<Rightarrow> nat \<Rightarrow>
     (nat \<Rightarrow> nat) \<times> 'f farray \<times> 'f grid \<Rightarrow> error + (nat \<Rightarrow> nat) \<times> 'f farray \<times> 'f grid" where
  "frames_loop F n_frames n_atoms xyzlist atom_radii sphere_points n_sphere_points
       atom_selection_mask counts grid_spacing i s =
     (if i < n_frames then
        (case s of (wb1, wb2, out) \<Rightarrow>
           (case asa_frame F (frame_at xyzlist n_atoms i) n_atoms atom_radii sphere_points
                   n_sphere_points wb1 wb2 atom_selection_mask
                   (\<lambda>a. out (grid_offset counts i + a)) counts grid_spacing of
              Inl e \<Rightarrow> Inl e
            | Inr (wb1', wb2', out_grid') \<Rightarrow>
                frames_loop F n_frames n_atoms xyzlist atom_radii sphere_points n_sphere_points
                  atom_selection_mask counts grid_spacing (i + 1)
                  (wb1', wb2', \<lambda>a. out_grid' (a - grid_offset counts i))))
      else Inr s)"
  by pat_completeness auto
termination
  by (relation "measure (\<lambda>(F, n_frames, n_atoms, xyz, radii, sp, n, sel, counts, g, i, s).
        n_frames - i)") auto

text \<open>
  The function, lines 184 to 228. What \<open>malloc\<close> returns has indeterminate
  contents: the three buffers are arguments (\<open>sphere_points\<close>, \<open>wb1\<close>, \<open>wb2\<close>).
  The result is \<open>out\<close>.
\<close>

definition sasa ::
  "('f::{zero,plus,minus,times,inverse,ord}) fenv \<Rightarrow> nat \<Rightarrow> nat \<Rightarrow> (int \<Rightarrow> 'f) \<Rightarrow> 'f farray \<Rightarrow> nat \<Rightarrow>
     (nat \<Rightarrow> int) \<Rightarrow> 'f grid \<Rightarrow> (nat \<Rightarrow> int) \<Rightarrow> 'f \<Rightarrow> 'f farray \<Rightarrow> (nat \<Rightarrow> nat) \<Rightarrow> 'f farray \<Rightarrow>
     error + 'f grid" where
  "sasa F n_frames n_atoms xyzlist atom_radii n_sphere_points atom_selection_mask out counts
       grid_spacing sphere_points wb1 wb2 =
     (let sphere_points' = generate_sphere_points F sphere_points n_sphere_points in
      case frames_loop F n_frames n_atoms xyzlist atom_radii sphere_points' n_sphere_points
             atom_selection_mask counts grid_spacing 0 (wb1, wb2, out) of
        Inl e \<Rightarrow> Inl e
      | Inr (wb1', wb2', out') \<Rightarrow> Inr out')"

text \<open>
  A frame is degenerate when a selected atom has another atom on top of it.
\<close>

definition degenerate ::
  "'f fenv \<Rightarrow> ('f::{zero,plus,minus,times,ord}) farray \<Rightarrow> nat \<Rightarrow> (nat \<Rightarrow> int) \<Rightarrow> bool" where
  "degenerate F frame n_atoms atom_selection_mask \<longleftrightarrow>
     (\<exists>i. i < n_atoms \<and> atom_selection_mask i \<noteq> 0 \<and> (\<exists>j. j < n_atoms \<and> on_top F frame i j))"

text \<open>Lines 96 to 98: point \<open>j\<close> of the sphere, scaled and centred on atom \<open>i\<close>.\<close>

definition centered_point ::
  "('f::{zero,plus,times}) farray \<Rightarrow> 'f \<Rightarrow> nat \<Rightarrow> 'f farray \<Rightarrow> nat \<Rightarrow> 'f fvec4" where
  "centered_point frame atom_radius_i i sphere_points j =
     fvec4 (frame (3 * i) + atom_radius_i * sphere_points (3 * j))
           (frame (3 * i + 1) + atom_radius_i * sphere_points (3 * j + 1))
           (frame (3 * i + 2) + atom_radius_i * sphere_points (3 * j + 2)) 0"

text \<open>The voxel of a point passes the bounds check; the cell of the point.\<close>

definition point_in_grid :: "('f::{times,inverse}) fenv \<Rightarrow> (nat \<Rightarrow> int) \<Rightarrow> 'f \<Rightarrow> 'f fvec4 \<Rightarrow> bool" where
  "point_in_grid F counts grid_spacing r_j \<longleftrightarrow>
     in_bounds counts (voxel F grid_spacing (lane r_j 0)) (voxel F grid_spacing (lane r_j 1))
       (voxel F grid_spacing (lane r_j 2))"

definition point_cell :: "('f::{times,inverse}) fenv \<Rightarrow> (nat \<Rightarrow> int) \<Rightarrow> 'f \<Rightarrow> 'f fvec4 \<Rightarrow> int" where
  "point_cell F counts grid_spacing r_j =
     grid_index counts (voxel F grid_spacing (lane r_j 0)) (voxel F grid_spacing (lane r_j 1))
       (voxel F grid_spacing (lane r_j 2))"

text \<open>The points of atom \<open>i\<close>, in the order of the loop.\<close>

definition atom_points ::
  "('f::{zero,plus,times}) farray \<Rightarrow> 'f farray \<Rightarrow> nat \<Rightarrow> 'f farray \<Rightarrow> nat \<Rightarrow> 'f fvec4 list" where
  "atom_points frame atom_radii i sphere_points n_sphere_points =
     map (centered_point frame (atom_radii i) i sphere_points) [0..<n_sphere_points]"

text \<open>Lines 173 to 179: coordinate \<open>c\<close> of point \<open>i\<close>, as the loop computes it.\<close>

definition spiral_coordinate ::
  "('f::{plus,minus,times,inverse}) fenv \<Rightarrow> 'f \<Rightarrow> 'f \<Rightarrow> nat \<Rightarrow> nat \<Rightarrow> 'f" where
  "spiral_coordinate F inc offset i c =
     (let y = fl F (real i) * offset - fl F 1 + (offset / fl F 2);
          r = sqrt_f F (fl F 1 - y * y);
          phi = fl F (real i) * inc
      in if c = 0 then cos_f F phi * r else if c = 1 then y else sin_f F phi * r)"

text \<open>
  What \<open>sasa\<close> computes for one frame taken alone: the grid of \<open>asa_frame\<close> run on
  the frame with the generated sphere points, from work buffers and a grid
  that hold zeros.
\<close>

definition frame_grid ::
  "('f::{zero,plus,minus,times,inverse,ord}) fenv \<Rightarrow> 'f farray \<Rightarrow> nat \<Rightarrow> 'f farray \<Rightarrow> nat \<Rightarrow>
     (nat \<Rightarrow> int) \<Rightarrow> (nat \<Rightarrow> int) \<Rightarrow> 'f \<Rightarrow> error + 'f grid" where
  "frame_grid F frame n_atoms atom_radii n_sphere_points atom_selection_mask counts grid_spacing =
     (case asa_frame F frame n_atoms atom_radii
             (generate_sphere_points F (\<lambda>a. 0) n_sphere_points) n_sphere_points
             (\<lambda>p. 0) (\<lambda>a. 0) atom_selection_mask (\<lambda>a. 0) counts grid_spacing of
        Inl e \<Rightarrow> Inl e
      | Inr (neighbor_indices, centered_sphere_points, out_grid) \<Rightarrow> Inr out_grid)"

section \<open>The arithmetic of the machine\<close>

text \<open>
  IEEE 754 binary32, the \<open>float\<close> of the compiled program, with rounding to
  nearest, ties to even: a 24-bit significand, exponents from \<open>-126\<close> (below
  it the numbers are subnormal, with the spacing \<open>2\<^sup>-\<^sup>1\<^sup>4\<^sup>9\<close>) to 127. A value is
  a finite number or \<open>NaN\<close>. What is left out: an infinity (overflow, division
  by zero) is not told apart from \<open>NaN\<close>, nor \<open>-0\<close> from \<open>0\<close>.
\<close>

datatype float32 = Finite real | NaN

definition round_even :: "real \<Rightarrow> int" where
  "round_even x =
     (let f = \<lfloor>x\<rfloor> in
      if x - of_int f < 1 / 2 then f
      else if 1 / 2 < x - of_int f then f + 1
      else if even f then f else f + 1)"

definition pow2 :: "int \<Rightarrow> real" where
  "pow2 e = (if 0 \<le> e then 2 ^ nat e else 1 / 2 ^ nat (- e))"

definition binary32 :: "real \<Rightarrow> float32" where
  "binary32 x =
     (if x = 0 then Finite 0
      else
        let e = max \<lfloor>log 2 \<bar>x\<bar>\<rfloor> (- 126);
            ulp = pow2 (e - 23);
            y = of_int (round_even (x / ulp)) * ulp
        in if \<bar>y\<bar> < pow2 128 then Finite y else NaN)"

instantiation float32 :: "{zero,plus,minus,times,inverse,ord}"
begin

definition zero_float32 :: float32 where
  "zero_float32 = Finite 0"

definition plus_float32 :: "float32 \<Rightarrow> float32 \<Rightarrow> float32" where
  "plus_float32 x y = (case (x, y) of (Finite a, Finite b) \<Rightarrow> binary32 (a + b) | _ \<Rightarrow> NaN)"

definition minus_float32 :: "float32 \<Rightarrow> float32 \<Rightarrow> float32" where
  "minus_float32 x y = (case (x, y) of (Finite a, Finite b) \<Rightarrow> binary32 (a - b) | _ \<Rightarrow> NaN)"

definition times_float32 :: "float32 \<Rightarrow> float32 \<Rightarrow> float32" where
  "times_float32 x y = (case (x, y) of (Finite a, Finite b) \<Rightarrow> binary32 (a * b) | _ \<Rightarrow> NaN)"

definition divide_float32 :: "float32 \<Rightarrow> float32 \<Rightarrow> float32" where
  "divide_float32 x y =
     (case (x, y) of (Finite a, Finite b) \<Rightarrow> if b = 0 then NaN else binary32 (a / b) | _ \<Rightarrow> NaN)"

definition inverse_float32 :: "float32 \<Rightarrow> float32" where
  "inverse_float32 x = (case x of Finite b \<Rightarrow> if b = 0 then NaN else binary32 (1 / b) | NaN \<Rightarrow> NaN)"

definition less_float32 :: "float32 \<Rightarrow> float32 \<Rightarrow> bool" where
  "less_float32 x y = (case (x, y) of (Finite a, Finite b) \<Rightarrow> a < b | _ \<Rightarrow> False)"

definition less_eq_float32 :: "float32 \<Rightarrow> float32 \<Rightarrow> bool" where
  "less_eq_float32 x y = (case (x, y) of (Finite a, Finite b) \<Rightarrow> a \<le> b | _ \<Rightarrow> False)"

instance ..

end


section \<open>Properties\<close>

declare zero_grid.simps [simp del]

lemma int32_id: "- 2147483648 \<le> x \<Longrightarrow> x \<le> INT_MAX \<Longrightarrow> int32 x = x"
  by (simp add: int32_def INT_MAX_def)

lemma int32_range: "- 2147483648 \<le> int32 x \<and> int32 x \<le> INT_MAX"
proof -
  have "0 \<le> (x + 2147483648) mod 4294967296" "(x + 2147483648) mod 4294967296 < 4294967296"
    by simp_all
  then show ?thesis by (simp add: int32_def INT_MAX_def)
qed

lemma zero_grid_eq:
  "zero_grid i n g = (\<lambda>a. if i \<le> a \<and> a < n then 0 else g a)"
proof (induction i n g rule: zero_grid.induct)
  case (1 i n g)
  show ?case
  proof (cases "i < n")
    case True
    have "zero_grid i n g = zero_grid (i + 1) n (g(i := 0))"
      using True by (subst zero_grid.simps) simp
    also have "\<dots> = (\<lambda>a. if i + 1 \<le> a \<and> a < n then 0 else (g(i := 0)) a)"
      by (rule 1 [OF True])
    also have "\<dots> = (\<lambda>a. if i \<le> a \<and> a < n then 0 else g a)"
      using True by (auto simp: fun_eq_iff)
    finally show ?thesis .
  next
    case False
    then show ?thesis
      by (subst zero_grid.simps) (auto simp: fun_eq_iff)
  qed
qed

lemma flat_index_bounds:
  fixes c0 c1 c2 ix iy iz :: int
  assumes "0 \<le> ix" "ix < c0" "0 \<le> iy" "iy < c1" "0 \<le> iz" "iz < c2"
  shows "0 \<le> iz * c1" and "iz * c1 \<le> c0 * c1 * c2" and "0 \<le> iz * c1 * c0"
    and "iz * c1 * c0 \<le> c0 * c1 * c2"
    and "0 \<le> iy * c0" and "iy * c0 \<le> c0 * c1 * c2"
    and "iz * c1 * c0 + iy * c0 \<le> c0 * c1 * c2"
    and "iz * c1 * c0 + iy * c0 + ix < c0 * c1 * c2"
    and "c0 * c1 \<le> c0 * c1 * c2" and "0 < c0 * c1"
proof -
  have p: "0 < c0" "0 < c1" "0 < c2" using assms by auto
  have z1: "iz + 1 \<le> c2" and y1: "iy + 1 \<le> c1" and x1: "ix + 1 \<le> c0" using assms by auto
  show a: "0 \<le> iz * c1" using assms p by simp
  show b: "0 \<le> iz * c1 * c0" using a p by simp
  show c: "0 \<le> iy * c0" using assms p by simp
  show d: "0 < c0 * c1" using p by simp
  have e: "(iz + 1) * (c1 * c0) \<le> c2 * (c1 * c0)"
    using z1 d by (intro mult_right_mono) (simp_all add: mult.commute)
  have f: "(iy + 1) * c0 \<le> c1 * c0"
    using y1 p by (intro mult_right_mono) simp_all
  have g: "iz * c1 * c0 + c1 * c0 \<le> c0 * c1 * c2"
    using e by (simp add: algebra_simps)
  have h: "iy * c0 + c0 \<le> c1 * c0"
    using f by (simp add: algebra_simps)
  show "iz * c1 * c0 + iy * c0 + ix < c0 * c1 * c2" using g h x1 by linarith
  show "iz * c1 * c0 + iy * c0 \<le> c0 * c1 * c2" using g h p by linarith
  have d': "0 < c1 * c0" using p by simp
  show "iz * c1 * c0 \<le> c0 * c1 * c2" using g d' by linarith
  show "iy * c0 \<le> c0 * c1 * c2" using g h p b by linarith
  have "1 * (c0 * c1) \<le> c2 * (c0 * c1)" using p d by (intro mult_right_mono) simp_all
  then show k: "c0 * c1 \<le> c0 * c1 * c2" by (simp add: mult.commute)
  have "iz * c1 \<le> c2 * c1" using assms p by (intro mult_right_mono) simp_all
  also have "\<dots> = 1 * (c1 * c2)" by simp
  also have "\<dots> \<le> c0 * (c1 * c2)" using p by (intro mult_right_mono) simp_all
  finally show "iz * c1 \<le> c0 * c1 * c2" by (simp add: mult.assoc)
qed

declare neighbor_loop.simps [simp del] center_loop.simps [simp del]
  scan_neighbors.simps [simp del] points_loop.simps [simp del] atoms_loop.simps [simp del]

subsection \<open>The flattened index\<close>

lemma in_bounds_positive:
  "in_bounds counts ix iy iz \<Longrightarrow> 0 < counts 0 \<and> 0 < counts 1 \<and> 0 < counts 2"
  by (auto simp: in_bounds_def)

lemma grid_index_exact:
  assumes b: "in_bounds counts ix iy iz"
    and m: "counts 0 * counts 1 * counts 2 \<le> INT_MAX"
  shows "grid_index counts ix iy iz = iz * counts 1 * counts 0 + iy * counts 0 + ix"
    and "0 \<le> iz * counts 1 * counts 0 + iy * counts 0 + ix"
    and "iz * counts 1 * counts 0 + iy * counts 0 + ix < counts 0 * counts 1 * counts 2"
proof -
  have r: "0 \<le> ix" "ix < counts 0" "0 \<le> iy" "iy < counts 1" "0 \<le> iz" "iz < counts 2"
    using b by (auto simp: in_bounds_def)
  note fb = flat_index_bounds [OF r]
  have 1: "int32 (iz * counts 1) = iz * counts 1"
    using fb(1,2) m by (intro int32_id) linarith+
  have 2: "int32 (iz * counts 1 * counts 0) = iz * counts 1 * counts 0"
    using fb(3,4) m by (intro int32_id) linarith+
  have 3: "int32 (iy * counts 0) = iy * counts 0"
    using fb(5,6) m by (intro int32_id) linarith+
  have 4: "int32 (iz * counts 1 * counts 0 + iy * counts 0) = iz * counts 1 * counts 0 + iy * counts 0"
    using fb(3,5,7) m by (intro int32_id) linarith+
  have 5: "int32 (iz * counts 1 * counts 0 + iy * counts 0 + ix)
             = iz * counts 1 * counts 0 + iy * counts 0 + ix"
    using fb(3,5,8) r(1) m by (intro int32_id) linarith+
  show "grid_index counts ix iy iz = iz * counts 1 * counts 0 + iy * counts 0 + ix"
    unfolding grid_index_def 1 2 3 4 5 ..
  show "0 \<le> iz * counts 1 * counts 0 + iy * counts 0 + ix"
    using fb(3,5) r(1) by linarith
  show "iz * counts 1 * counts 0 + iy * counts 0 + ix < counts 0 * counts 1 * counts 2"
    by (rule fb(8))
qed

lemma total_grid_points_exact:
  assumes p: "0 < counts 0" "0 < counts 1" "0 < counts 2"
    and m: "counts 0 * counts 1 * counts 2 \<le> INT_MAX"
  shows "total_grid_points counts = counts 0 * counts 1 * counts 2"
proof -
  have a: "0 < counts 0 * counts 1" using p by simp
  have "1 * (counts 0 * counts 1) \<le> counts 2 * (counts 0 * counts 1)"
    using p a by (intro mult_right_mono) simp_all
  then have b: "counts 0 * counts 1 \<le> counts 0 * counts 1 * counts 2"
    by (simp add: mult.commute)
  have 1: "int32 (counts 0 * counts 1) = counts 0 * counts 1"
    using a b m by (intro int32_id) linarith+
  have c: "0 < counts 0 * counts 1 * counts 2" using a p by simp
  have 2: "int32 (counts 0 * counts 1 * counts 2) = counts 0 * counts 1 * counts 2"
    using c m by (intro int32_id) linarith+
  show ?thesis unfolding total_grid_points_def 1 2 ..
qed

subsection \<open>The stores of asa\_frame\<close>

lemma deposit_outside:
  assumes m: "counts 0 * counts 1 * counts 2 \<le> INT_MAX"
    and a: "a < 0 \<or> counts 0 * counts 1 * counts 2 \<le> a"
  shows "deposit F counts grid_spacing constant atom_radius_i r_j g a = g a"
proof -
  have "grid_index counts ix iy iz \<noteq> a" if "in_bounds counts ix iy iz" for ix iy iz
    using grid_index_exact [OF that m] a by auto
  then show ?thesis
    unfolding deposit_def Let_def by (auto simp del: One_nat_def)
qed

lemma points_loop_outside:
  assumes m: "counts 0 * counts 1 * counts 2 \<le> INT_MAX"
    and a: "a < 0 \<or> counts 0 * counts 1 * counts 2 \<le> a"
  shows "points_loop F frame atom_radii nb n cs n_sphere_points counts grid_spacing cst r j s
           = Inr s' \<Longrightarrow> snd s' a = snd s a"
  using m a
proof (induction F frame atom_radii nb n cs n_sphere_points counts grid_spacing cst r j s
    rule: points_loop.induct)
  case (1 F frame atom_radii nb n cs n_sphere_points counts grid_spacing cst r j s)
  obtain kc g where s: "s = (kc, g)" by (cases s)
  show ?case
  proof (cases "j < n_sphere_points")
    case False
    with 1(2) show ?thesis by (subst (asm) points_loop.simps) simp
  next
    case True
    from 1(2) True s obtain acc k' where
      c: "classify_point frame atom_radii nb n (point_at cs j) kc = Inr (acc, k')"
      and l: "points_loop F frame atom_radii nb n cs n_sphere_points counts grid_spacing cst r (j + 1)
           (k', if acc then deposit F counts grid_spacing cst r (point_at cs j) g else g) = Inr s'"
      by (subst (asm) points_loop.simps) (auto simp: Let_def split: sum.splits)
    have "snd s' a = snd (k', if acc then deposit F counts grid_spacing cst r (point_at cs j) g else g) a"
      using 1(1) [OF True s [symmetric] refl c refl l 1(3) 1(4)] .
    then show ?thesis
      using s by (simp add: deposit_outside [OF 1(3) 1(4)])
  qed
qed


lemma atom_step_outside:
  assumes m: "counts 0 * counts 1 * counts 2 \<le> INT_MAX"
    and a: "a < 0 \<or> counts 0 * counts 1 * counts 2 \<le> a"
    and r: "atom_step F frame n_atoms atom_radii sphere_points n_sphere_points amask counts
              grid_spacing cst i s = Inr s'"
  shows "snd (snd s') a = snd (snd s) a"
proof -
  obtain nb cs g where s: "s = (nb, cs, g)" by (cases s)
  show ?thesis
  proof (cases "amask i = 0")
    case True
    with r s show ?thesis by (simp add: atom_step_def)
  next
    case False
    with r s obtain nb' n kc g' where
      "points_loop F frame atom_radii nb' n
         (center_loop frame (atom_radii i) i sphere_points n_sphere_points 0 cs)
         n_sphere_points counts grid_spacing cst (atom_radii i) 0 (0, g) = Inr (kc, g')"
      and "s' = (nb', center_loop frame (atom_radii i) i sphere_points n_sphere_points 0 cs, g')"
      by (auto simp: atom_step_def Let_def split: sum.splits)
    then show ?thesis
      using points_loop_outside [OF m a] s by fastforce
  qed
qed

lemma atoms_loop_outside:
  assumes m: "counts 0 * counts 1 * counts 2 \<le> INT_MAX"
    and a: "a < 0 \<or> counts 0 * counts 1 * counts 2 \<le> a"
  shows "atoms_loop F frame n_atoms atom_radii sphere_points n_sphere_points amask counts
           grid_spacing cst i s = Inr s' \<Longrightarrow> snd (snd s') a = snd (snd s) a"
  using m a
proof (induction F frame n_atoms atom_radii sphere_points n_sphere_points amask counts
    grid_spacing cst i s rule: atoms_loop.induct)
  case (1 F frame n_atoms atom_radii sphere_points n_sphere_points amask counts grid_spacing cst i s)
  show ?case
  proof (cases "i < n_atoms")
    case False
    with 1(2) show ?thesis by (subst (asm) atoms_loop.simps) simp
  next
    case True
    from 1(2) True obtain s1 where
      st: "atom_step F frame n_atoms atom_radii sphere_points n_sphere_points amask counts
             grid_spacing cst i s = Inr s1"
      and l: "atoms_loop F frame n_atoms atom_radii sphere_points n_sphere_points amask counts
             grid_spacing cst (i + 1) s1 = Inr s'"
      by (subst (asm) atoms_loop.simps) (auto split: sum.splits)
    have "snd (snd s') a = snd (snd s1) a"
      using 1(1) [OF True st l 1(3) 1(4)] .
    also have "\<dots> = snd (snd s) a"
      using atom_step_outside [OF 1(3) 1(4) st] .
    finally show ?thesis .
  qed
qed

text \<open>
  C10. With positive voxel counts whose product is an \<open>int\<close>, every store of
  \<open>asa_frame\<close> into the grid is at an index from 0 up to the product of the
  counts: the zeroing loop writes exactly these cells, the index of a point
  that passes the bounds check is the flattened index and lies among them, and
  a run leaves every cell outside them as it was.
\<close>

theorem asa_frame_stores_in_range:
  assumes p: "0 < counts 0" "0 < counts 1" "0 < counts 2"
    and m: "counts 0 * counts 1 * counts 2 \<le> INT_MAX"
  shows "zero_grid 0 (total_grid_points counts) out_grid
           = (\<lambda>a. if 0 \<le> a \<and> a < counts 0 * counts 1 * counts 2 then 0 else out_grid a)
       \<and> (\<forall>ix iy iz. in_bounds counts ix iy iz \<longrightarrow>
             grid_index counts ix iy iz = iz * counts 1 * counts 0 + iy * counts 0 + ix
           \<and> 0 \<le> grid_index counts ix iy iz
           \<and> grid_index counts ix iy iz \<le> counts 0 * counts 1 * counts 2 - 1)
       \<and> (\<forall>nb' cs' g' a.
             asa_frame F frame n_atoms atom_radii sphere_points n_sphere_points neighbor_indices
               centered_sphere_points amask out_grid counts grid_spacing = Inr (nb', cs', g')
           \<and> (a < 0 \<or> counts 0 * counts 1 * counts 2 \<le> a) \<longrightarrow> g' a = out_grid a)"
proof (intro conjI allI impI)
  show z: "zero_grid 0 (total_grid_points counts) out_grid
           = (\<lambda>a. if 0 \<le> a \<and> a < counts 0 * counts 1 * counts 2 then 0 else out_grid a)"
    by (simp only: zero_grid_eq total_grid_points_exact [OF p m])
  fix ix iy iz
  assume b: "in_bounds counts ix iy iz"
  show "grid_index counts ix iy iz = iz * counts 1 * counts 0 + iy * counts 0 + ix"
    by (rule grid_index_exact(1) [OF b m])
  show "0 \<le> grid_index counts ix iy iz"
    using grid_index_exact [OF b m] by simp
  show "grid_index counts ix iy iz \<le> counts 0 * counts 1 * counts 2 - 1"
    using grid_index_exact [OF b m] by simp
next
  fix nb' cs' g' a
  assume h: "asa_frame F frame n_atoms atom_radii sphere_points n_sphere_points neighbor_indices
               centered_sphere_points amask out_grid counts grid_spacing = Inr (nb', cs', g')
           \<and> (a < 0 \<or> counts 0 * counts 1 * counts 2 \<le> a)"
  then have a: "a < 0 \<or> counts 0 * counts 1 * counts 2 \<le> a" by simp
  from h have "atoms_loop F frame n_atoms atom_radii sphere_points n_sphere_points amask counts
      grid_spacing (area_constant F n_sphere_points) 0
      (neighbor_indices, centered_sphere_points, zero_grid 0 (total_grid_points counts) out_grid)
      = Inr (nb', cs', g')"
    by (simp add: asa_frame_def Let_def)
  from atoms_loop_outside [OF m a this]
  have "g' a = zero_grid 0 (total_grid_points counts) out_grid a" by simp
  also have "\<dots> = out_grid a"
    using a by (auto simp: zero_grid_eq total_grid_points_exact [OF p m])
  finally show "g' a = out_grid a" .
qed

subsection \<open>Running the model on concrete inputs\<close>

lemmas asa_eval = asa_frame_def atoms_loop.simps atom_step_def neighbor_loop.simps
  neighbor_step_def center_loop.simps points_loop.simps classify_point_def scan_neighbors.simps
  deposit_def voxel_def in_bounds_def grid_index_def total_grid_points_def zero_grid.simps
  area_constant_def point_at_def r_at_def r2_atoms_def radius_cutoff2_def blocked_by_def
  int32_def c_rem_def exact_def c_roundf_def c_trunc_def Let_def

theorem asa_frame_stores_in_range_witness:
  "0 < [4, 4, 4 :: int] ! 0 \<and> 0 < [4, 4, 4 :: int] ! 1 \<and> 0 < [4, 4, 4 :: int] ! 2
   \<and> [4, 4, 4] ! 0 * [4, 4, 4] ! 1 * [4, 4, 4] ! 2 \<le> INT_MAX
   \<and> zero_grid 0 (total_grid_points (\<lambda>i. [4, 4, 4] ! i)) (\<lambda>a. 7 :: real)
        = (\<lambda>a. if 0 \<le> a \<and> a < 64 then 0 else 7)
   \<and> in_bounds (\<lambda>i. [4, 4, 4] ! i) 2 1 1
   \<and> grid_index (\<lambda>i. [4, 4, 4] ! i) 2 1 1 = 22
   \<and> (\<exists>nb' cs' g'.
         asa_frame exact (\<lambda>i. [1, 1, 1] ! i) 1 (\<lambda>i. 1) (\<lambda>i. [1, 0, 0] ! i) 1
           (\<lambda>i. 0) (\<lambda>i. 0) (\<lambda>i. 1) (\<lambda>a. 7) (\<lambda>i. [4, 4, 4] ! i) 1 = Inr (nb', cs', g')
       \<and> g' 22 = 4 * pi \<and> g' (- 1) = 7 \<and> g' 64 = 7)"
proof -
  let ?C = "\<lambda>i::nat. [4, 4, 4 :: int] ! i"
  have p: "0 < ?C 0" "0 < ?C 1" "0 < ?C 2" and m: "?C 0 * ?C 1 * ?C 2 \<le> INT_MAX"
    by (simp_all add: INT_MAX_def)
  note t = asa_frame_stores_in_range [of ?C, OF p m]
  have b: "in_bounds ?C 2 1 1" by (simp add: in_bounds_def)
  obtain nb' cs' g' where
    r: "asa_frame exact (\<lambda>i. [1, 1, 1] ! i) 1 (\<lambda>i. 1) (\<lambda>i. [1, 0, 0] ! i) 1
           (\<lambda>i. 0) (\<lambda>i. 0) (\<lambda>i. 1) (\<lambda>a. 7) ?C 1 = Inr (nb', cs', g')"
    and v: "g' 22 = 4 * pi"
    by (simp add: asa_eval)
  have z: "zero_grid 0 (total_grid_points ?C) (\<lambda>a. 7 :: real)
        = (\<lambda>a. if 0 \<le> a \<and> a < 64 then 0 else 7)"
    using t [THEN conjunct1, of "\<lambda>a. 7 :: real"] by simp
  have i: "grid_index ?C 2 1 1 = 22"
    using t [THEN conjunct2, THEN conjunct1] b by simp
  note out = t [THEN conjunct2, THEN conjunct2, rule_format, OF conjI, OF r]
  have o: "g' (- 1) = 7" "g' 64 = 7"
    by (rule out, simp)+
  show ?thesis
    using p m z b i r v o by simp
qed

text \<open>
  Without the bound the claim fails: the counts 65536, 65536 and 1 are
  positive, their product \<open>2 ^ 32\<close> wraps around to 0, so nothing is zeroed, and
  the point in voxel (65535, 65535, 0) passes the bounds check and is stored at
  index \<open>- 1\<close>.
\<close>

theorem asa_frame_store_below_zero:
  "0 < [65536, 65536, 1 :: int] ! 0 \<and> 0 < [65536, 65536, 1 :: int] ! 1
   \<and> 0 < [65536, 65536, 1 :: int] ! 2
   \<and> total_grid_points (\<lambda>i. [65536, 65536, 1] ! i) = 0
   \<and> in_bounds (\<lambda>i. [65536, 65536, 1] ! i) 65535 65535 0
   \<and> grid_index (\<lambda>i. [65536, 65536, 1] ! i) 65535 65535 0 = - 1
   \<and> (\<exists>nb' cs' g'.
         asa_frame exact (\<lambda>i. [65534, 65535, 0] ! i) 1 (\<lambda>i. 1) (\<lambda>i. [1, 0, 0] ! i) 1
           (\<lambda>i. 0) (\<lambda>i. 0) (\<lambda>i. 1) (\<lambda>a. 0) (\<lambda>i. [65536, 65536, 1] ! i) 1
           = Inr (nb', cs', g')
       \<and> g' (- 1) = 4 * pi \<and> g' (- 1) \<noteq> 0)"
  by (simp add: asa_eval)

lemma exact_sel:
  "fl exact x = x" "roundf exact = c_roundf" "to_int exact = c_trunc"
  "sqrt_f exact = sqrt" "cos_f exact = cos" "sin_f exact = sin"
  by (simp_all add: exact_def)

subsection \<open>The loop over the sphere points, one iteration\<close>

lemma points_loop_done:
  "\<not> j < n_sphere_points \<Longrightarrow>
   points_loop F frame atom_radii nb n cs n_sphere_points counts grid_spacing cst r j s = Inr s"
  by (subst points_loop.simps) simp

lemma points_loop_step:
  assumes "j < n_sphere_points"
    and "classify_point frame atom_radii nb n (point_at cs j) kc = Inr (acc, k')"
  shows "points_loop F frame atom_radii nb n cs n_sphere_points counts grid_spacing cst r j (kc, g)
    = points_loop F frame atom_radii nb n cs n_sphere_points counts grid_spacing cst r (j + 1)
        (k', if acc then deposit F counts grid_spacing cst r (point_at cs j) g else g)"
  using assms by (subst points_loop.simps) (simp add: Let_def)

lemma points_loop_error:
  assumes "j < n_sphere_points"
    and "classify_point frame atom_radii nb n (point_at cs j) kc = Inl e"
  shows "points_loop F frame atom_radii nb n cs n_sphere_points counts grid_spacing cst r j (kc, g)
    = Inl e"
  using assms by (subst points_loop.simps) (simp add: Let_def)

text \<open>
  C2. When the product of the counts is an \<open>int\<close>: an accessible point, with
  \<open>ix\<close>, \<open>iy\<close> and \<open>iz\<close> the voxel of each of its coordinates (the coordinate
  rounded to the nearest multiple of the spacing, divided by the spacing and
  cast to \<open>int\<close>), adds \<open>(4 \<pi> / n_sphere_points) * r * r\<close> to the cell
  \<open>iz * countsY * countsX + iy * countsX + ix\<close> if the voxel passes the bounds
  check, and changes no cell otherwise; the sum is onto what the cell holds, so
  two points of one voxel add up; a point that is not accessible changes
  nothing.
\<close>

theorem deposit_adds_area:
  assumes m: "counts 0 * counts 1 * counts 2 \<le> INT_MAX"
  shows "(\<forall>r_j g. deposit F counts grid_spacing (area_constant F n_sphere_points) atom_radius_i r_j g =
           (let ix = voxel F grid_spacing (lane r_j 0);
                iy = voxel F grid_spacing (lane r_j 1);
                iz = voxel F grid_spacing (lane r_j 2);
                cell = iz * counts 1 * counts 0 + iy * counts 0 + ix
            in if 0 \<le> ix \<and> ix < counts 0 \<and> 0 \<le> iy \<and> iy < counts 1 \<and> 0 \<le> iz \<and> iz < counts 2
               then g(cell := g cell
                        + fl F 4 * fl F pi / fl F (real n_sphere_points) * atom_radius_i * atom_radius_i)
               else g))
       \<and> (\<forall>j kc k' acc g. j < n_sphere_points
             \<and> classify_point frame atom_radii nb n (point_at cs j) kc = Inr (acc, k') \<longrightarrow>
             points_loop F frame atom_radii nb n cs n_sphere_points counts grid_spacing
               (area_constant F n_sphere_points) atom_radius_i j (kc, g)
             = points_loop F frame atom_radii nb n cs n_sphere_points counts grid_spacing
                 (area_constant F n_sphere_points) atom_radius_i (j + 1)
                 (k', if acc
                      then deposit F counts grid_spacing (area_constant F n_sphere_points)
                             atom_radius_i (point_at cs j) g
                      else g))"
proof (intro conjI allI impI)
  fix r_j :: "'a fvec4" and g :: "'a grid"
  let ?ix = "voxel F grid_spacing (lane r_j 0)"
  let ?iy = "voxel F grid_spacing (lane r_j 1)"
  let ?iz = "voxel F grid_spacing (lane r_j 2)"
  have "grid_index counts ?ix ?iy ?iz = ?iz * counts 1 * counts 0 + ?iy * counts 0 + ?ix"
    if "in_bounds counts ?ix ?iy ?iz"
    by (rule grid_index_exact(1) [OF that m])
  then show "deposit F counts grid_spacing (area_constant F n_sphere_points) atom_radius_i r_j g =
           (let ix = voxel F grid_spacing (lane r_j 0);
                iy = voxel F grid_spacing (lane r_j 1);
                iz = voxel F grid_spacing (lane r_j 2);
                cell = iz * counts 1 * counts 0 + iy * counts 0 + ix
            in if 0 \<le> ix \<and> ix < counts 0 \<and> 0 \<le> iy \<and> iy < counts 1 \<and> 0 \<le> iz \<and> iz < counts 2
               then g(cell := g cell
                        + fl F 4 * fl F pi / fl F (real n_sphere_points) * atom_radius_i * atom_radius_i)
               else g)"
    unfolding deposit_def Let_def area_constant_def
    by (auto simp: in_bounds_def simp del: One_nat_def)
next
  fix j kc k' acc and g :: "'a grid"
  assume "j < n_sphere_points
      \<and> classify_point frame atom_radii nb n (point_at cs j) kc = Inr (acc, k')"
  then show "points_loop F frame atom_radii nb n cs n_sphere_points counts grid_spacing
               (area_constant F n_sphere_points) atom_radius_i j (kc, g)
             = points_loop F frame atom_radii nb n cs n_sphere_points counts grid_spacing
                 (area_constant F n_sphere_points) atom_radius_i (j + 1)
                 (k', if acc
                      then deposit F counts grid_spacing (area_constant F n_sphere_points)
                             atom_radius_i (point_at cs j) g
                      else g)"
    by (intro points_loop_step) simp_all
qed

theorem deposit_adds_area_witness:
  "[4, 4, 4] ! 0 * [4, 4, 4] ! 1 * [4, 4, 4] ! 2 \<le> INT_MAX
   \<and> voxel exact (1 / 2) (11 / 10) = 2 \<and> voxel exact (1 / 2) (7 / 10) = 1
   \<and> voxel exact (1 / 2) (3 / 2) = 3
   \<and> deposit exact (\<lambda>i. [4, 4, 4] ! i) (1 / 2) (area_constant exact 8) 3
        (fvec4 (11 / 10) (7 / 10) (3 / 2) 0) (\<lambda>a. 1)
      = (\<lambda>a. 1)(3 * 4 * 4 + 1 * 4 + 2 := 1 + 4 * pi / 8 * 3 * 3)
   \<and> deposit exact (\<lambda>i. [4, 4, 4] ! i) (1 / 2) (area_constant exact 8) 3
        (fvec4 (11 / 10) (7 / 10) (3 / 2) 0)
        (deposit exact (\<lambda>i. [4, 4, 4] ! i) (1 / 2) (area_constant exact 8) 3
           (fvec4 (9 / 10) (1 / 2) (8 / 5) 0) (\<lambda>a. 0)) 54
      = 4 * pi / 8 * 3 * 3 + 4 * pi / 8 * 3 * 3
   \<and> deposit exact (\<lambda>i. [4, 4, 4] ! i) (1 / 2) (area_constant exact 8) 3
        (fvec4 (11 / 10) (7 / 10) 2 0) (\<lambda>a. 1) = (\<lambda>a. 1)"
proof -
  let ?C = "\<lambda>i::nat. [4, 4, 4 :: int] ! i"
  have m: "?C 0 * ?C 1 * ?C 2 \<le> INT_MAX" by (simp add: INT_MAX_def)
  have v: "voxel exact (1 / 2) (11 / 10) = 2" "voxel exact (1 / 2) (7 / 10) = 1"
    "voxel exact (1 / 2) (3 / 2) = 3" "voxel exact (1 / 2) 2 = 4"
    "voxel exact (1 / 2) (9 / 10) = 2" "voxel exact (1 / 2) (1 / 2) = 1"
    "voxel exact (1 / 2) (8 / 5) = 3"
    by (simp_all add: voxel_def exact_sel c_roundf_def c_trunc_def)
  note t = deposit_adds_area [of ?C exact "1 / 2" 8 3, OF m, THEN conjunct1, rule_format]
  show ?thesis
    using m by (simp add: t v Let_def exact_sel fun_upd_def)
qed

text \<open>
  Without the bound the claim fails: with the counts 65536, 65536 and 1 the
  point in voxel (65535, 65535, 0) passes the bounds check and its flattened
  index is 4294967295, but that cell is left as it was and the sum goes to the
  cell \<open>- 1\<close>.
\<close>

theorem deposit_wraps_around:
  "voxel exact 1 65535 = 65535 \<and> voxel exact 1 0 = 0
   \<and> in_bounds (\<lambda>i. [65536, 65536, 1] ! i) 65535 65535 0
   \<and> 0 * [65536, 65536, 1] ! 1 * [65536, 65536, 1] ! 0 + 65535 * [65536, 65536, 1] ! 0 + 65535
       = (4294967295 :: int)
   \<and> deposit exact (\<lambda>i. [65536, 65536, 1] ! i) 1 (area_constant exact 1) 1
        (fvec4 65535 65535 0 0) (\<lambda>a. 0) 4294967295 = 0
   \<and> deposit exact (\<lambda>i. [65536, 65536, 1] ! i) 1 (area_constant exact 1) 1
        (fvec4 65535 65535 0 0) (\<lambda>a. 0) (- 1) = 4 * pi"
  by (simp add: asa_eval)

subsection \<open>The neighbour scan\<close>

lemma neighbor_step_Inr:
  "neighbor_step F frame atom_radii i j (nb, n) = Inr s' \<longleftrightarrow>
     \<not> on_top F frame i j
     \<and> s' = (if within_cutoff frame atom_radii i j then (nb(n := j), n + 1) else (nb, n))"
  by (auto simp: neighbor_step_def on_top_def within_cutoff_def Let_def)

lemma neighbor_step_Inl:
  "neighbor_step F frame atom_radii i j s = Inl e \<longleftrightarrow> on_top F frame i j \<and> e = AtomsOnTop"
  by (cases s) (auto simp: neighbor_step_def on_top_def Let_def)

lemma neighbor_loop_Inr:
  "neighbor_loop F frame n_atoms atom_radii i j s = Inr s' \<Longrightarrow>
     (\<forall>j'. j \<le> j' \<and> j' < n_atoms \<longrightarrow> \<not> on_top F frame i j')
     \<and> snd s' = snd s + length (filter (within_cutoff frame atom_radii i) [j..<n_atoms])
     \<and> map (fst s') [snd s..<snd s'] = filter (within_cutoff frame atom_radii i) [j..<n_atoms]
     \<and> (\<forall>p. p < snd s \<longrightarrow> fst s' p = fst s p)"
proof (induction F frame n_atoms atom_radii i j s rule: neighbor_loop.induct)
  case (1 F frame n_atoms atom_radii i j s)
  obtain nb n where s: "s = (nb, n)" by (cases s)
  show ?case
  proof (cases "j < n_atoms")
    case False
    with 1(2) show ?thesis by (subst (asm) neighbor_loop.simps) auto
  next
    case True
    from 1(2) True obtain s1 where
      st: "neighbor_step F frame atom_radii i j s = Inr s1"
      and l: "neighbor_loop F frame n_atoms atom_radii i (j + 1) s1 = Inr s'"
      by (subst (asm) neighbor_loop.simps) (auto split: sum.splits)
    note ih = 1(1) [OF True st l]
    note ih2 = ih [THEN conjunct2, THEN conjunct1]
      and ih3 = ih [THEN conjunct2, THEN conjunct2, THEN conjunct1]
      and ih4 = ih [THEN conjunct2, THEN conjunct2, THEN conjunct2]
    from st s have nt: "\<not> on_top F frame i j"
      and s1: "s1 = (if within_cutoff frame atom_radii i j then (nb(n := j), n + 1) else (nb, n))"
      by (simp_all add: neighbor_step_Inr)
    have u: "[j..<n_atoms] = j # [j + 1..<n_atoms]"
      using True by (simp add: upt_conv_Cons)
    have a: "\<forall>j'. j \<le> j' \<and> j' < n_atoms \<longrightarrow> \<not> on_top F frame i j'"
    proof (intro allI impI)
      fix j' assume "j \<le> j' \<and> j' < n_atoms"
      then have "j' = j \<or> (j + 1 \<le> j' \<and> j' < n_atoms)" by auto
      then show "\<not> on_top F frame i j'" using nt ih by auto
    qed
    show ?thesis
    proof (cases "within_cutoff frame atom_radii i j")
      case False
      with ih2 ih3 ih4 s1
      have "snd s' = n + length (filter (within_cutoff frame atom_radii i) [j + 1..<n_atoms])"
        and "map (fst s') [n..<snd s'] = filter (within_cutoff frame atom_radii i) [j + 1..<n_atoms]"
        and "\<forall>p. p < n \<longrightarrow> fst s' p = nb p"
        by simp_all
      then show ?thesis using a s u False by simp
    next
      case w: True
      let ?L = "filter (within_cutoff frame atom_radii i) [j + 1..<n_atoms]"
      from ih2 ih3 ih4 s1 w have n': "snd s' = n + 1 + length ?L"
        and m: "map (fst s') [n + 1..<snd s'] = ?L"
        and k: "\<forall>p. p < n + 1 \<longrightarrow> fst s' p = (nb(n := j)) p"
        by simp_all
      have "n < snd s'" using n' by simp
      then have "[n..<snd s'] = n # [n + 1..<snd s']"
        unfolding Suc_eq_plus1 [symmetric] by (rule upt_conv_Cons)
      then have "map (fst s') [n..<snd s'] = fst s' n # ?L"
        using m by simp
      moreover have "fst s' n = j" using k by simp
      ultimately have "map (fst s') [n..<snd s'] = j # ?L" by simp
      moreover have "\<forall>p. p < n \<longrightarrow> fst s' p = nb p" using k by simp
      ultimately show ?thesis using a s u w n' by simp
    qed
  qed
qed

lemma neighbor_loop_Inl:
  "neighbor_loop F frame n_atoms atom_radii i j s = Inl e \<Longrightarrow>
     e = AtomsOnTop \<and> (\<exists>j'. j \<le> j' \<and> j' < n_atoms \<and> on_top F frame i j')"
proof (induction F frame n_atoms atom_radii i j s rule: neighbor_loop.induct)
  case (1 F frame n_atoms atom_radii i j s)
  show ?case
  proof (cases "j < n_atoms")
    case False
    with 1(2) show ?thesis by (subst (asm) neighbor_loop.simps) simp
  next
    case True
    show ?thesis
    proof (cases "neighbor_step F frame atom_radii i j s")
      case (Inl e')
      with 1(2) True have "e = e'" by (subst (asm) neighbor_loop.simps) simp
      with Inl True show ?thesis by (auto simp: neighbor_step_Inl)
    next
      case (Inr s1)
      with 1(2) True have "neighbor_loop F frame n_atoms atom_radii i (j + 1) s1 = Inl e"
        by (subst (asm) neighbor_loop.simps) simp
      from 1(1) [OF True Inr this] show ?thesis
        by (metis add_leD1)
    qed
  qed
qed


text \<open>
  C5. The scan of lines 69 to 92 for atom \<open>i\<close>, started as \<open>asa_frame\<close> starts it
  (at atom 0, with the count 0), either stops the program, and then some atom
  is on top of \<open>i\<close>, or leaves in the first \<open>n_neighbor_indices\<close> cells of the
  buffer exactly the atoms \<open>j \<noteq> i\<close> with \<open>r2 < (radius_i + radius_j)\<^sup>2\<close>, in
  ascending order.
\<close>

theorem neighbor_list_exact:
  "(case neighbor_loop F frame n_atoms atom_radii i 0 (neighbor_indices, 0) of
      Inl e \<Rightarrow> e = AtomsOnTop \<and> (\<exists>j. j < n_atoms \<and> on_top F frame i j)
    | Inr (nb', n) \<Rightarrow>
        (\<forall>j. j < n_atoms \<longrightarrow> \<not> on_top F frame i j)
        \<and> map nb' [0..<n]
            = filter (\<lambda>j. j \<noteq> i \<and> r2_atoms frame i j < radius_cutoff2 atom_radii i j) [0..<n_atoms]
        \<and> set (map nb' [0..<n])
            = {j. j < n_atoms \<and> j \<noteq> i \<and> r2_atoms frame i j < radius_cutoff2 atom_radii i j}
        \<and> sorted_wrt (<) (map nb' [0..<n]))"
proof (cases "neighbor_loop F frame n_atoms atom_radii i 0 (neighbor_indices, 0)")
  case (Inl e)
  from neighbor_loop_Inl [OF Inl] show ?thesis
    using Inl by auto
next
  case (Inr s')
  obtain nb' n where s': "s' = (nb', n)" by (cases s')
  let ?P = "\<lambda>j. j \<noteq> i \<and> r2_atoms frame i j < radius_cutoff2 atom_radii i j"
  have w: "within_cutoff frame atom_radii i = ?P"
    by (simp add: within_cutoff_def fun_eq_iff)
  note c = neighbor_loop_Inr [OF Inr]
  have a: "\<forall>j. j < n_atoms \<longrightarrow> \<not> on_top F frame i j"
    using c [THEN conjunct1] by simp
  have m: "map nb' [0..<n] = filter ?P [0..<n_atoms]"
    using c [THEN conjunct2, THEN conjunct2, THEN conjunct1] s' w by simp
  have "set (filter ?P [0..<n_atoms]) = {j. j < n_atoms \<and> ?P j}"
    by auto
  then have t: "set (map nb' [0..<n]) = {j. j < n_atoms \<and> ?P j}"
    unfolding m .
  have "sorted_wrt (<) (filter ?P [0..<n_atoms])"
    by (rule sorted_wrt_filter) (rule sorted_wrt_upt)
  then have o: "sorted_wrt (<) (map nb' [0..<n])"
    unfolding m .
  show ?thesis
    unfolding Inr s' sum.case prod.case using a m t o by blast
qed

theorem neighbor_list_exact_witness:
  "(\<exists>nb'. neighbor_loop exact (\<lambda>a. [0, 0, 0, 10, 0, 0, 3 / 2, 0, 0, 0, 1, 0] ! a) 4 (\<lambda>j. 1) 0 0
             (\<lambda>p. 7, 0) = Inr (nb', 2)
         \<and> map nb' [0..<2] = [2, 3])
   \<and> filter (\<lambda>j. j \<noteq> 0
          \<and> r2_atoms (\<lambda>a. [0, 0, 0, 10, 0, 0, 3 / 2, 0, 0, 0, 1, 0 :: real] ! a) 0 j
               < radius_cutoff2 (\<lambda>j. 1) 0 j) [0..<4] = [2, 3]
   \<and> neighbor_loop exact (\<lambda>a. [0, 0, 0, 0, 0, 0] ! a) 2 (\<lambda>j. 1) 0 0 (\<lambda>p. 7, 0) = Inl AtomsOnTop
   \<and> on_top exact (\<lambda>a. [0, 0, 0, 0, 0, 0] ! a) 0 1"
proof -
  let ?f = "\<lambda>a::nat. [0, 0, 0, 10, 0, 0, 3 / 2, 0, 0, 0, 1, 0 :: real] ! a"
  obtain nb' where r: "neighbor_loop exact ?f 4 (\<lambda>j. 1) 0 0 (\<lambda>p. 7, 0) = Inr (nb', 2)"
    by (simp add: asa_eval eval_nat_numeral)
  have e: "neighbor_loop exact (\<lambda>a. [0, 0, 0, 0, 0, 0] ! a) 2 (\<lambda>j. 1) 0 0 (\<lambda>p. 7, 0) = Inl AtomsOnTop"
    by (simp add: asa_eval eval_nat_numeral)
  have u: "[0..<4] = [0, 1, 2, 3]" by (simp add: upt_rec)
  have f: "filter (\<lambda>j. j \<noteq> 0 \<and> r2_atoms ?f 0 j < radius_cutoff2 (\<lambda>j. 1) 0 j) [0..<4] = [2, 3]"
    unfolding u by (simp add: r2_atoms_def radius_cutoff2_def r_at_def)
  from neighbor_list_exact [where F = exact and frame = ?f and n_atoms = 4
      and atom_radii = "\<lambda>j. 1" and i = 0 and neighbor_indices = "\<lambda>p. 7"] r f
  have "map nb' [0..<2] = [2, 3]" by simp
  moreover from neighbor_list_exact [where F = exact and frame = "\<lambda>a. [0, 0, 0, 0, 0, 0] ! a"
      and n_atoms = 2 and atom_radii = "\<lambda>j. 1" and i = 0 and neighbor_indices = "\<lambda>p. 7"] e
  have "on_top exact (\<lambda>a. [0, 0, 0, 0, 0, 0] ! a) 0 1"
    by (auto simp: less_Suc_eq numeral_2_eq_2 on_top_def)
  ultimately show ?thesis using r f e by auto
qed

text \<open>
  C7. An atom whose entry in the mask is 0 is skipped by the loop over the
  atoms: its iteration leaves the work buffers and the grid as they were, so
  no point is centred or classified for it and it adds nothing to the grid.
  The scan for a selected atom \<open>i\<close> does not read the mask: an unselected atom
  \<open>j\<close> within the cutoff of \<open>i\<close> is in the neighbour list of \<open>i\<close>, and one on top
  of \<open>i\<close> stops the program.
\<close>

theorem unselected_atom_is_skipped_but_scanned:
  "(atom_selection_mask i = 0 \<longrightarrow>
      atom_step F frame n_atoms atom_radii sphere_points n_sphere_points atom_selection_mask
        counts grid_spacing cst i s = Inr s)
   \<and> (atom_selection_mask j = 0 \<and> j < n_atoms \<and> within_cutoff frame atom_radii i j
        \<and> neighbor_loop F frame n_atoms atom_radii i 0 (neighbor_indices, 0) = Inr (nb', n) \<longrightarrow>
      (\<exists>p. p < n \<and> nb' p = j))
   \<and> (atom_selection_mask i \<noteq> 0 \<and> atom_selection_mask j = 0 \<and> j < n_atoms \<and> on_top F frame i j \<longrightarrow>
      atom_step F frame n_atoms atom_radii sphere_points n_sphere_points atom_selection_mask
        counts grid_spacing cst i s = Inl AtomsOnTop)"
proof (intro conjI impI)
  assume "atom_selection_mask i = 0"
  then show "atom_step F frame n_atoms atom_radii sphere_points n_sphere_points atom_selection_mask
        counts grid_spacing cst i s = Inr s"
    by (cases s) (simp add: atom_step_def)
next
  assume h: "atom_selection_mask j = 0 \<and> j < n_atoms \<and> within_cutoff frame atom_radii i j
        \<and> neighbor_loop F frame n_atoms atom_radii i 0 (neighbor_indices, 0) = Inr (nb', n)"
  then have r: "neighbor_loop F frame n_atoms atom_radii i 0 (neighbor_indices, 0) = Inr (nb', n)"
    by simp
  from neighbor_loop_Inr [OF r, THEN conjunct2, THEN conjunct2, THEN conjunct1]
  have "map nb' [0..<n] = filter (within_cutoff frame atom_radii i) [0..<n_atoms]" by simp
  moreover have "j \<in> set (filter (within_cutoff frame atom_radii i) [0..<n_atoms])"
    using h by simp
  ultimately have "j \<in> set (map nb' [0..<n])" by simp
  then show "\<exists>p. p < n \<and> nb' p = j" by auto
next
  assume h: "atom_selection_mask i \<noteq> 0 \<and> atom_selection_mask j = 0 \<and> j < n_atoms
      \<and> on_top F frame i j"
  obtain nb cs g where s: "s = (nb, cs, g)" by (cases s)
  have "neighbor_loop F frame n_atoms atom_radii i 0 (nb, 0) = Inl AtomsOnTop"
  proof (cases "neighbor_loop F frame n_atoms atom_radii i 0 (nb, 0)")
    case (Inl e)
    with neighbor_loop_Inl [OF Inl] show ?thesis by simp
  next
    case (Inr s')
    from neighbor_loop_Inr [OF Inr, THEN conjunct1] h show ?thesis by blast
  qed
  with h s show "atom_step F frame n_atoms atom_radii sphere_points n_sphere_points
        atom_selection_mask counts grid_spacing cst i s = Inl AtomsOnTop"
    by (simp add: atom_step_def)
qed


theorem unselected_atom_is_skipped_but_scanned_witness:
  "[0, 1] ! 0 = (0 :: int) \<and> [0, 1] ! 1 \<noteq> (0 :: int)
   \<and> atom_step exact (\<lambda>a. [0, 0, 0, 3 / 2, 0, 0] ! a) 2 (\<lambda>j. 1) (\<lambda>a. [1, 0, 0] ! a) 1
        (\<lambda>i. [0, 1] ! i) (\<lambda>i. [4, 4, 4] ! i) 1 (area_constant exact 1) 0
        (\<lambda>p. 7, \<lambda>a. 5, \<lambda>a. 3) = Inr (\<lambda>p. 7, \<lambda>a. 5, \<lambda>a. 3)
   \<and> within_cutoff (\<lambda>a. [0, 0, 0, 3 / 2, 0, 0 :: real] ! a) (\<lambda>j. 1) 1 0
   \<and> (\<exists>nb'. neighbor_loop exact (\<lambda>a. [0, 0, 0, 3 / 2, 0, 0] ! a) 2 (\<lambda>j. 1) 1 0 (\<lambda>p. 7, 0)
                = Inr (nb', 1) \<and> nb' 0 = 0)
   \<and> on_top exact (\<lambda>a. [2, 0, 0, 2, 0, 0] ! a) 1 0
   \<and> atom_step exact (\<lambda>a. [2, 0, 0, 2, 0, 0] ! a) 2 (\<lambda>j. 1) (\<lambda>a. [1, 0, 0] ! a) 1
        (\<lambda>i. [0, 1] ! i) (\<lambda>i. [4, 4, 4] ! i) 1 (area_constant exact 1) 1
        (\<lambda>p. 7, \<lambda>a. 5, \<lambda>a. 3) = Inl AtomsOnTop"
proof -
  let ?f = "\<lambda>a::nat. [0, 0, 0, 3 / 2, 0, 0 :: real] ! a"
  let ?h = "\<lambda>a::nat. [2, 0, 0, 2, 0, 0 :: real] ! a"
  let ?m = "\<lambda>i::nat. [0, 1 :: int] ! i"
  have m: "?m 0 = 0" "?m 1 \<noteq> 0" by simp_all
  have w: "within_cutoff ?f (\<lambda>j. 1) 1 0"
    by (simp add: within_cutoff_def r2_atoms_def radius_cutoff2_def r_at_def)
  have t: "on_top exact ?h 1 0"
    by (simp add: on_top_def r2_atoms_def r_at_def exact_sel)
  obtain nb' where r: "neighbor_loop exact ?f 2 (\<lambda>j. 1) 1 0 (\<lambda>p. 7, 0) = Inr (nb', 1)"
    by (simp add: asa_eval)
  note u = unselected_atom_is_skipped_but_scanned
  have 1: "atom_step exact ?f 2 (\<lambda>j. 1) (\<lambda>a. [1, 0, 0] ! a) 1 ?m (\<lambda>i. [4, 4, 4] ! i) 1
        (area_constant exact 1) 0 (\<lambda>p. 7, \<lambda>a. 5, \<lambda>a. 3) = Inr (\<lambda>p. 7, \<lambda>a. 5, \<lambda>a. 3)"
    using u [THEN conjunct1, rule_format, of ?m 0] m by simp
  have "\<exists>p. p < 1 \<and> nb' p = 0"
    using u [where atom_selection_mask = ?m, THEN conjunct2, THEN conjunct1, rule_format,
        OF conjI, OF m(1) conjI, OF _ conjI, OF _ w r]
    by simp
  then have 2: "nb' 0 = 0" by simp
  have 3: "atom_step exact ?h 2 (\<lambda>j. 1) (\<lambda>a. [1, 0, 0] ! a) 1 ?m (\<lambda>i. [4, 4, 4] ! i) 1
        (area_constant exact 1) 1 (\<lambda>p. 7, \<lambda>a. 5, \<lambda>a. 3) = Inl AtomsOnTop"
    using u [where atom_selection_mask = ?m and i = 1 and j = 0 and n_atoms = 2,
        THEN conjunct2, THEN conjunct2, rule_format, OF conjI, OF m(2) conjI, OF m(1) conjI, OF _ t]
    by simp
  show ?thesis
    using m 1 w r 2 t 3 by auto
qed

declare accessible_flags.simps [simp del]

subsection \<open>The cyclic scan\<close>

lemma c_rem_mod: "0 \<le> a \<Longrightarrow> 0 < b \<Longrightarrow> c_rem a b = a mod b"
proof -
  assume "0 \<le> a" "0 < b"
  then have "c_rem a b = a - b * (sgn a * (a div b))"
    by (simp add: c_rem_def)
  also have "\<dots> = a - b * (a div b)"
    using \<open>0 \<le> a\<close> by (cases "a = 0") (simp_all add: sgn_if)
  also have "\<dots> = a mod b"
    by (simp add: minus_mult_div_eq_mod)
  finally show ?thesis .
qed

lemma scan_neighbors_past: "\<not> k < bound \<Longrightarrow>
  scan_neighbors frame atom_radii nb n r_j k bound = Inr None"
  by (subst scan_neighbors.simps) simp

lemma scan_neighbors_None:
  assumes "0 < n" "0 \<le> k"
    and "\<forall>m. k \<le> m \<and> m < bound \<longrightarrow> \<not> blocked_by frame atom_radii nb r_j (nat (m mod int n))"
  shows "scan_neighbors frame atom_radii nb n r_j k bound = Inr None"
  using assms
proof (induction frame atom_radii nb n r_j k bound rule: scan_neighbors.induct)
  case (1 frame atom_radii nb n r_j k bound)
  show ?case
  proof (cases "k < bound")
    case False
    then show ?thesis by (rule scan_neighbors_past)
  next
    case True
    have r: "c_rem k (int n) = k mod int n"
      using 1(2,3) by (intro c_rem_mod) simp_all
    have nb: "\<not> blocked_by frame atom_radii nb r_j (nat (k mod int n))"
      using 1(4) True by simp
    have "scan_neighbors frame atom_radii nb n r_j (k + 1) bound = Inr None"
    proof (rule 1(1) [OF True _ refl _ 1(2)])
      show "n \<noteq> 0" using 1(2) by simp
      show "\<not> blocked_by frame atom_radii nb r_j (nat (c_rem k (int n)))"
        using nb r by simp
      show "0 \<le> k + 1" using 1(3) by simp
      show "\<forall>m. k + 1 \<le> m \<and> m < bound \<longrightarrow> \<not> blocked_by frame atom_radii nb r_j (nat (m mod int n))"
        using 1(4) by simp
    qed
    then show ?thesis
      using True 1(2) nb r by (subst scan_neighbors.simps) (simp add: Let_def)
  qed
qed

lemma scan_neighbors_Some:
  assumes "0 < n" "0 \<le> k" "k \<le> m" "m < bound"
    and "blocked_by frame atom_radii nb r_j (nat (m mod int n))"
    and "\<forall>m'. k \<le> m' \<and> m' < m \<longrightarrow> \<not> blocked_by frame atom_radii nb r_j (nat (m' mod int n))"
  shows "scan_neighbors frame atom_radii nb n r_j k bound = Inr (Some m)"
  using assms
proof (induction frame atom_radii nb n r_j k bound rule: scan_neighbors.induct)
  case (1 frame atom_radii nb n r_j k bound)
  have kb: "k < bound" using 1(4,5) by simp
  have r: "c_rem k (int n) = k mod int n"
    using 1(2,3) by (intro c_rem_mod) simp_all
  show ?case
  proof (cases "k = m")
    case True
    then show ?thesis
      using kb 1(2,6) r by (subst scan_neighbors.simps) (simp add: Let_def)
  next
    case False
    then have lt: "k < m" using 1(4) by simp
    then have nb: "\<not> blocked_by frame atom_radii nb r_j (nat (k mod int n))"
      using 1(7) by simp
    have "scan_neighbors frame atom_radii nb n r_j (k + 1) bound = Inr (Some m)"
    proof (rule 1(1) [OF kb _ refl _ 1(2) _ _ 1(5) 1(6)])
      show "n \<noteq> 0" using 1(2) by simp
      show "\<not> blocked_by frame atom_radii nb r_j (nat (c_rem k (int n)))"
        using nb r by simp
      show "0 \<le> k + 1" using 1(3) by simp
      show "k + 1 \<le> m" using lt by simp
      show "\<forall>m'. k + 1 \<le> m' \<and> m' < m \<longrightarrow> \<not> blocked_by frame atom_radii nb r_j (nat (m' mod int n))"
        using 1(7) by simp
    qed
    then show ?thesis
      using kb 1(2) nb r by (subst scan_neighbors.simps) (simp add: Let_def)
  qed
qed


lemma residue_cover:
  assumes "0 < n" "p < n"
  shows "\<exists>d. d < n \<and> nat ((k + int d) mod int n) = p"
proof -
  let ?d = "nat ((int p - k) mod int n)"
  have "0 \<le> (int p - k) mod int n" "(int p - k) mod int n < int n"
    using assms by simp_all
  then have d: "?d < n" "int ?d = (int p - k) mod int n" by simp_all
  have "(k + int ?d) mod int n = (k + (int p - k) mod int n) mod int n"
    using d by simp
  also have "\<dots> = (k + (int p - k)) mod int n"
    by (rule mod_add_right_eq)
  also have "\<dots> = int p" using assms by simp
  finally have "nat ((k + int ?d) mod int n) = p" by simp
  with d(1) show ?thesis by blast
qed

lemma naive_accessible_window:
  assumes "0 < n"
  shows "naive_accessible frame atom_radii nb n r_j \<longleftrightarrow>
     (\<forall>m. k \<le> m \<and> m < k + int n \<longrightarrow> \<not> blocked_by frame atom_radii nb r_j (nat (m mod int n)))"
proof
  assume a: "naive_accessible frame atom_radii nb n r_j"
  show "\<forall>m. k \<le> m \<and> m < k + int n \<longrightarrow> \<not> blocked_by frame atom_radii nb r_j (nat (m mod int n))"
  proof (intro allI impI)
    fix m
    have "0 \<le> m mod int n" "m mod int n < int n" using assms by simp_all
    then have "nat (m mod int n) < n" by simp
    with a show "\<not> blocked_by frame atom_radii nb r_j (nat (m mod int n))"
      by (simp add: naive_accessible_def list_all_iff)
  qed
next
  assume a: "\<forall>m. k \<le> m \<and> m < k + int n \<longrightarrow> \<not> blocked_by frame atom_radii nb r_j (nat (m mod int n))"
  have "\<not> blocked_by frame atom_radii nb r_j p" if "p < n" for p
  proof -
    from residue_cover [OF assms that, of k] obtain d where
      d: "d < n" "nat ((k + int d) mod int n) = p" by blast
    from a d(1) have "\<not> blocked_by frame atom_radii nb r_j (nat ((k + int d) mod int n))"
      by simp
    with d(2) show ?thesis by simp
  qed
  then show "naive_accessible frame atom_radii nb n r_j"
    by (simp add: naive_accessible_def list_all_iff)
qed

lemma scan_neighbors_window:
  assumes n: "0 < n" and k: "0 \<le> k"
  shows "\<exists>res. scan_neighbors frame atom_radii nb n r_j k (k + int n) = Inr res
           \<and> (res = None \<longleftrightarrow> naive_accessible frame atom_radii nb n r_j)
           \<and> (\<forall>m. res = Some m \<longrightarrow> k \<le> m \<and> m < k + int n)"
proof (cases "naive_accessible frame atom_radii nb n r_j")
  case True
  then have "scan_neighbors frame atom_radii nb n r_j k (k + int n) = Inr None"
    using naive_accessible_window [OF n, of frame atom_radii nb r_j k]
    by (intro scan_neighbors_None [OF n k]) simp
  with True show ?thesis by simp
next
  case False
  let ?B = "\<lambda>d. d < n \<and> blocked_by frame atom_radii nb r_j (nat ((k + int d) mod int n))"
  from False obtain m where m: "k \<le> m" "m < k + int n"
    "blocked_by frame atom_radii nb r_j (nat (m mod int n))"
    using naive_accessible_window [OF n, of frame atom_radii nb r_j k] by blast
  then have "?B (nat (m - k))" by simp
  then have ex: "\<exists>d. ?B d" by blast
  define d where "d = (LEAST d. ?B d)"
  have bd: "?B d" unfolding d_def using ex by (rule LeastI_ex)
  have least: "\<not> ?B d'" if "d' < d" for d'
    using that unfolding d_def by (rule not_less_Least)
  have "scan_neighbors frame atom_radii nb n r_j k (k + int n) = Inr (Some (k + int d))"
  proof (rule scan_neighbors_Some [OF n k])
    show "k \<le> k + int d" by simp
    show "k + int d < k + int n" using bd by simp
    show "blocked_by frame atom_radii nb r_j (nat ((k + int d) mod int n))" using bd by simp
    show "\<forall>m'. k \<le> m' \<and> m' < k + int d \<longrightarrow>
        \<not> blocked_by frame atom_radii nb r_j (nat (m' mod int n))"
    proof (intro allI impI)
      fix m' assume h: "k \<le> m' \<and> m' < k + int d"
      then have lt: "nat (m' - k) < d" by linarith
      then have "nat (m' - k) < n" using bd by simp
      moreover have "k + int (nat (m' - k)) = m'" using h by simp
      ultimately show "\<not> blocked_by frame atom_radii nb r_j (nat (m' mod int n))"
        using least [OF lt] by simp
    qed
  qed
  with False bd show ?thesis by simp
qed

text \<open>
  One point: when the bound \<open>n_neighbor_indices + k_closest_neighbor\<close> is an
  \<open>int\<close>, the cyclic scan gives the naive answer, and \<open>k_closest_neighbor\<close>
  grows by less than the length of the list.
\<close>

lemma classify_point_naive:
  assumes k: "0 \<le> kc" and b: "int n + kc \<le> INT_MAX"
  shows "\<exists>k'. classify_point frame atom_radii nb n r_j kc
              = Inr (naive_accessible frame atom_radii nb n r_j, k')
           \<and> kc \<le> k' \<and> k' \<le> kc + int (n - 1)"
proof -
  have w: "int32 (int n + kc) = kc + int n"
    using k b by (subst int32_id) simp_all
  show ?thesis
  proof (cases "n = 0")
    case True
    with w have "int32 kc = kc" by simp
    with True show ?thesis
      by (simp add: classify_point_def scan_neighbors_past naive_accessible_def)
  next
    case False
    then have n: "0 < n" by simp
    from scan_neighbors_window [OF n k, of frame atom_radii nb r_j] obtain res where
      r: "scan_neighbors frame atom_radii nb n r_j kc (kc + int n) = Inr res"
      and a: "res = None \<longleftrightarrow> naive_accessible frame atom_radii nb n r_j"
      and m: "\<forall>m. res = Some m \<longrightarrow> kc \<le> m \<and> m < kc + int n"
      by blast
    show ?thesis
    proof (cases res)
      case None
      with r a show ?thesis by (simp add: classify_point_def w)
    next
      case (Some m')
      with m have "kc \<le> m'" "m' \<le> kc + int (n - 1)" using n by auto
      with r a Some show ?thesis by (simp add: classify_point_def w)
    qed
  qed
qed


lemma accessible_flags_done:
  "\<not> j < n_sphere_points \<Longrightarrow> accessible_flags frame atom_radii nb n cs n_sphere_points j kc = Inr []"
  by (subst accessible_flags.simps) simp

lemma accessible_flags_step:
  assumes "j < n_sphere_points"
    and "classify_point frame atom_radii nb n (point_at cs j) kc = Inr (acc, k')"
    and "accessible_flags frame atom_radii nb n cs n_sphere_points (j + 1) k' = Inr flags"
  shows "accessible_flags frame atom_radii nb n cs n_sphere_points j kc = Inr (acc # flags)"
  using assms by (subst accessible_flags.simps) simp

lemma accessible_flags_naive:
  assumes b: "int (n + (n_sphere_points - 1) * (n - 1)) \<le> INT_MAX"
  shows "0 \<le> kc \<Longrightarrow> kc \<le> int (j * (n - 1)) \<Longrightarrow>
     accessible_flags frame atom_radii nb n cs n_sphere_points j kc
       = Inr (map (\<lambda>j. naive_accessible frame atom_radii nb n (point_at cs j)) [j..<n_sphere_points])"
  using b
proof (induction frame atom_radii nb n cs n_sphere_points j kc rule: accessible_flags.induct)
  case (1 frame atom_radii nb n cs n_sphere_points j kc)
  show ?case
  proof (cases "j < n_sphere_points")
    case False
    then show ?thesis by (simp add: accessible_flags_done)
  next
    case True
    then have "j \<le> n_sphere_points - 1" by simp
    then have "j * (n - 1) \<le> (n_sphere_points - 1) * (n - 1)"
      by (rule mult_le_mono1)
    then have "int n + kc \<le> int (n + (n_sphere_points - 1) * (n - 1))"
      using 1(3) by linarith
    then have bd: "int n + kc \<le> INT_MAX" using 1(4) by simp
    from classify_point_naive [OF 1(2) bd, of frame atom_radii nb "point_at cs j"]
    obtain k' where
      c: "classify_point frame atom_radii nb n (point_at cs j) kc
            = Inr (naive_accessible frame atom_radii nb n (point_at cs j), k')"
      and lo: "kc \<le> k'" and hi: "k' \<le> kc + int (n - 1)"
      by blast
    have "(j + 1) * (n - 1) = j * (n - 1) + (n - 1)" by simp
    then have hi': "k' \<le> int ((j + 1) * (n - 1))" using hi 1(3) by linarith
    have "accessible_flags frame atom_radii nb n cs n_sphere_points (j + 1) k'
       = Inr (map (\<lambda>j. naive_accessible frame atom_radii nb n (point_at cs j)) [j + 1..<n_sphere_points])"
      using 1(1) [OF True c refl] lo 1(2) hi' 1(4) by simp
    from accessible_flags_step [OF True c this] show ?thesis
      using True by (simp add: upt_conv_Cons)
  qed
qed

text \<open>The flags are the ones the loop of \<open>asa_frame\<close> acts on.\<close>

lemma points_loop_flags:
  "accessible_flags frame atom_radii nb n cs n_sphere_points j kc = Inr flags \<Longrightarrow>
   \<exists>k'. points_loop F frame atom_radii nb n cs n_sphere_points counts grid_spacing cst r j (kc, g)
     = Inr (k', fold (\<lambda>(j, acc) g. if acc then deposit F counts grid_spacing cst r (point_at cs j) g
                                     else g)
                 (zip [j..<n_sphere_points] flags) g)"
proof (induction frame atom_radii nb n cs n_sphere_points j kc arbitrary: flags g
    rule: accessible_flags.induct)
  case (1 frame atom_radii nb n cs n_sphere_points j kc)
  show ?case
  proof (cases "j < n_sphere_points")
    case False
    with 1(2) show ?thesis by (simp add: accessible_flags_done points_loop_done)
  next
    case True
    from 1(2) True obtain acc k1 fs where
      c: "classify_point frame atom_radii nb n (point_at cs j) kc = Inr (acc, k1)"
      and f: "accessible_flags frame atom_radii nb n cs n_sphere_points (j + 1) k1 = Inr fs"
      and fl: "flags = acc # fs"
      by (subst (asm) accessible_flags.simps) (auto split: sum.splits)
    let ?g = "if acc then deposit F counts grid_spacing cst r (point_at cs j) g else g"
    from 1(1) [OF True c refl f, of ?g] obtain k' where
      "points_loop F frame atom_radii nb n cs n_sphere_points counts grid_spacing cst r (j + 1) (k1, ?g)
        = Inr (k', fold (\<lambda>(j, acc) g. if acc then deposit F counts grid_spacing cst r (point_at cs j) g
                                     else g)
                 (zip [j + 1..<n_sphere_points] fs) ?g)"
      by blast
    then show ?thesis
      using True fl by (simp add: points_loop_step [OF True c] upt_conv_Cons)
  qed
qed


text \<open>
  C1. When \<open>n_neighbor_indices + (n_sphere_points - 1) * (n_neighbor_indices - 1)\<close>
  is an \<open>int\<close> (so whenever the product of the two counts is), the loop of
  \<open>asa_frame\<close>, started as \<open>asa_frame\<close> starts it (at point 0, with
  \<open>k_closest_neighbor = 0\<close>), finds each point accessible exactly when the naive
  scan of the whole list does; with an empty list every point is accessible.
\<close>

theorem cyclic_scan_is_naive_scan:
  assumes "int (n_neighbor_indices + (n_sphere_points - 1) * (n_neighbor_indices - 1)) \<le> INT_MAX"
  shows "accessible_flags frame atom_radii neighbor_indices n_neighbor_indices
           centered_sphere_points n_sphere_points 0 0
         = Inr (map (\<lambda>j. naive_accessible frame atom_radii neighbor_indices n_neighbor_indices
                            (point_at centered_sphere_points j)) [0..<n_sphere_points])
       \<and> (n_neighbor_indices = 0 \<longrightarrow>
            accessible_flags frame atom_radii neighbor_indices n_neighbor_indices
              centered_sphere_points n_sphere_points 0 0 = Inr (replicate n_sphere_points True))"
proof -
  have e: "accessible_flags frame atom_radii neighbor_indices n_neighbor_indices
           centered_sphere_points n_sphere_points 0 0
         = Inr (map (\<lambda>j. naive_accessible frame atom_radii neighbor_indices n_neighbor_indices
                            (point_at centered_sphere_points j)) [0..<n_sphere_points])"
    by (rule accessible_flags_naive [OF assms]) simp_all
  have "map (\<lambda>j. naive_accessible frame atom_radii neighbor_indices 0
                   (point_at centered_sphere_points j)) [0..<n_sphere_points]
        = replicate n_sphere_points True"
    by (simp add: naive_accessible_def map_replicate_const)
  with e show ?thesis by auto
qed

theorem cyclic_scan_is_naive_scan_witness:
  "int (2 + (4 - 1) * (2 - 1)) \<le> INT_MAX
   \<and> accessible_flags (\<lambda>a. [0, 0, 0, 3 / 2, 0, 0, - 3 / 2, 0, 0] ! a) (\<lambda>j. 1 :: real)
        (\<lambda>p. [1, 2] ! p) 2 (\<lambda>a. [1, 0, 0, 0, 1, 0, - 1, 0, 0, 0, 0, 1] ! a) 4 0 0
      = Inr [False, True, False, True]
   \<and> map (\<lambda>j. naive_accessible (\<lambda>a. [0, 0, 0, 3 / 2, 0, 0, - 3 / 2, 0, 0] ! a) (\<lambda>j. 1 :: real)
        (\<lambda>p. [1, 2] ! p) 2 (point_at (\<lambda>a. [1, 0, 0, 0, 1, 0, - 1, 0, 0, 0, 0, 1] ! a) j)) [0..<4]
      = [False, True, False, True]
   \<and> accessible_flags (\<lambda>a. [0, 0, 0] ! a) (\<lambda>j. 1 :: real) (\<lambda>p. 0) 0
        (\<lambda>a. [1, 0, 0, 0, 1, 0] ! a) 2 0 0 = Inr [True, True]"
proof -
  let ?f = "\<lambda>a::nat. [0, 0, 0, 3 / 2, 0, 0, - 3 / 2, 0, 0 :: real] ! a"
  let ?c = "\<lambda>a::nat. [1, 0, 0, 0, 1, 0, - 1, 0, 0, 0, 0, 1 :: real] ! a"
  let ?nb = "\<lambda>p::nat. [1, 2 :: nat] ! p"
  have b: "int (2 + (4 - 1) * (2 - 1)) \<le> INT_MAX" by (simp add: INT_MAX_def)
  have u: "[0..<4] = [0, 1, 2, 3]" "[0..<2] = [0, 1]" by (simp_all add: upt_rec)
  have n: "map (\<lambda>j. naive_accessible ?f (\<lambda>j. 1) ?nb 2 (point_at ?c j)) [0..<4]
      = [False, True, False, True]"
    by (simp add: u naive_accessible_def blocked_by_def point_at_def r_at_def)
  have b0: "int (0 + (2 - 1) * (0 - 1)) \<le> INT_MAX" by (simp add: INT_MAX_def)
  note t = cyclic_scan_is_naive_scan [OF b, of ?f "\<lambda>j. 1" ?nb ?c, THEN conjunct1]
  note t0 = cyclic_scan_is_naive_scan [OF b0, of "\<lambda>a. [0, 0, 0] ! a" "\<lambda>j. 1 :: real" "\<lambda>p. 0"
      "\<lambda>a. [1, 0, 0, 0, 1, 0] ! a", THEN conjunct2, rule_format, OF refl]
  show ?thesis
    using b n t t0 by (simp add: numeral_2_eq_2)
qed


subsection \<open>The bound of the cyclic scan overflows\<close>

lemma int_square_small: "(of_int x :: real) * of_int x < 1 / 4 \<longleftrightarrow> x = 0"
proof
  assume a: "(of_int x :: real) * of_int x < 1 / 4"
  show "x = 0"
  proof (rule ccontr)
    assume "x \<noteq> 0"
    then have "1 \<le> \<bar>x\<bar>" by simp
    then have "1 * 1 \<le> \<bar>x\<bar> * \<bar>x\<bar>" by (intro mult_mono) simp_all
    then have "1 \<le> x * x" by simp
    then have "(1 :: real) \<le> of_int (x * x)" by linarith
    with a show False by simp
  qed
qed simp

lemma line_blocked:
  assumes "j \<le> 65536"
  shows "blocked_by line_frame (\<lambda>a. 1 / 2) Suc (point_at line_points j) p \<longleftrightarrow> p + 1 + j = 65536"
proof -
  have m: "(Suc p * 3) mod 3 = 0" "(Suc p * 3 + 1) mod 3 \<noteq> 0" "(Suc p * 3 + 2) mod 3 \<noteq> 0"
    "(3 * j) mod 3 = 0" "(3 * j + 1) mod 3 \<noteq> 0" "(3 * j + 2) mod 3 \<noteq> 0"
    "(Suc p * 3) div 3 = Suc p" "(3 * j) div 3 = j"
    by presburger+
  have f: "line_frame (Suc p * 3) = real (Suc p)" "line_frame (Suc p * 3 + 1) = 0"
    "line_frame (Suc p * 3 + 2) = 0"
    unfolding line_frame_def using m by simp_all
  have c: "line_points (3 * j) = 65536 - real j" "line_points (3 * j + 1) = 0"
    "line_points (3 * j + 2) = 0"
    unfolding line_points_def using m by simp_all
  have e: "65536 - real j - real (Suc p) = of_int (65536 - int j - int (Suc p))"
    by simp
  have "blocked_by line_frame (\<lambda>a. 1 / 2) Suc (point_at line_points j) p
      \<longleftrightarrow> (65536 - real j - real (Suc p)) * (65536 - real j - real (Suc p)) < 1 / 4"
    unfolding blocked_by_def point_at_def r_at_def Let_def f c by simp
  also have "\<dots> \<longleftrightarrow> 65536 - int j - int (Suc p) = 0"
    unfolding e by (rule int_square_small)
  also have "\<dots> \<longleftrightarrow> p + 1 + j = 65536" by linarith
  finally show ?thesis .
qed

lemma line_classify:
  assumes j: "j < 32768"
  shows "classify_point line_frame (\<lambda>a. 1 / 2) Suc 65536 (point_at line_points j) (65535 * int j)
           = Inr (False, 65535 * int (j + 1))"
proof -
  let ?k = "65535 * int j"
  let ?m = "65535 * int (j + 1)"
  have n: "int 65536 = 65536" by simp
  have w: "int32 (65536 + ?k) = 65536 + ?k"
    using j by (subst int32_id) (simp_all add: INT_MAX_def)
  have md: "?m mod 65536 = 65535 - int j"
  proof -
    have "?m = (65535 - int j) + 65536 * int j" by simp
    then have "?m mod 65536 = (65535 - int j) mod 65536"
      by (metis mod_mult_self2)
    also have "\<dots> = 65535 - int j" using j by simp
    finally show ?thesis .
  qed
  have "scan_neighbors line_frame (\<lambda>a. 1 / 2) Suc 65536 (point_at line_points j) ?k (65536 + ?k)
          = Inr (Some ?m)"
  proof (rule scan_neighbors_Some)
    show "0 < (65536 :: nat)" by simp
    show "0 \<le> ?k" by simp
    show "?k \<le> ?m" by simp
    show "?m < 65536 + ?k" by simp
    have "nat (?m mod 65536) = 65535 - j" unfolding md using j by linarith
    then show "blocked_by line_frame (\<lambda>a. 1 / 2) Suc (point_at line_points j) (nat (?m mod int 65536))"
      unfolding n using j by (simp add: line_blocked)
    show "\<forall>m'. ?k \<le> m' \<and> m' < ?m \<longrightarrow>
        \<not> blocked_by line_frame (\<lambda>a. 1 / 2) Suc (point_at line_points j) (nat (m' mod int 65536))"
      unfolding n
    proof (intro allI impI notI)
      fix m'
      assume r: "?k \<le> m' \<and> m' < ?m"
        and bl: "blocked_by line_frame (\<lambda>a. 1 / 2) Suc (point_at line_points j) (nat (m' mod 65536))"
      have nn: "0 \<le> m' mod 65536" by simp
      from bl j have "nat (m' mod 65536) + 1 + j = 65536" by (simp add: line_blocked)
      then have "m' mod 65536 = 65535 - int j" using nn by linarith
      then have "?m mod 65536 = m' mod 65536" using md by simp
      then have "65536 dvd ?m - m'" by (simp add: mod_eq_dvd_iff)
      moreover have "0 < ?m - m'" "?m - m' < 65536" using r by simp_all
      ultimately show False using zdvd_not_zless by blast
    qed
  qed
  then show ?thesis
    unfolding classify_point_def n w by simp
qed

lemma line_classify_last:
  "classify_point line_frame (\<lambda>a. 1 / 2) Suc 65536 (point_at line_points 32768) (65535 * int 32768)
     = Inr (True, 65535 * int 32768)"
proof -
  have "int32 (int 65536 + 65535 * int 32768) = - 2147450880"
    by (simp add: int32_def)
  moreover have "scan_neighbors line_frame (\<lambda>a. 1 / 2) Suc 65536 (point_at line_points 32768)
      (65535 * int 32768) (- 2147450880) = Inr None"
    by (rule scan_neighbors_past) simp
  ultimately show ?thesis
    unfolding classify_point_def by (simp only: sum.case option.case)
qed

lemma line_flags:
  "j + d = 32768 \<Longrightarrow>
   accessible_flags line_frame (\<lambda>a. 1 / 2) Suc 65536 line_points (Suc 32768) j (65535 * int j)
     = Inr (replicate d False @ [True])"
proof (induction d arbitrary: j)
  case 0
  then have j: "j = 32768" by simp
  have "accessible_flags line_frame (\<lambda>a. 1 / 2) Suc 65536 line_points (Suc 32768) (32768 + 1)
          (65535 * int 32768) = Inr []"
    by (rule accessible_flags_done) simp
  from accessible_flags_step [OF _ line_classify_last this] show ?case
    unfolding j by simp
next
  case (Suc d)
  then have j: "j < 32768" "(j + 1) + d = 32768" by simp_all
  from accessible_flags_step [OF _ line_classify [OF j(1)] Suc(1) [OF j(2)]] j(1)
  show ?case by simp
qed

lemma line_naive:
  assumes "j \<le> 32768"
  shows "\<not> naive_accessible line_frame (\<lambda>a. 1 / 2) Suc 65536 (point_at line_points j)"
proof -
  have "65535 - j < 65536" by simp
  moreover have "blocked_by line_frame (\<lambda>a. 1 / 2) Suc (point_at line_points j) (65535 - j)"
    using assms by (simp add: line_blocked)
  ultimately have "\<exists>p. p < 65536 \<and> blocked_by line_frame (\<lambda>a. 1 / 2) Suc (point_at line_points j) p"
    by blast
  then show ?thesis
    unfolding naive_accessible_def list_all_iff set_upt by auto
qed

lemma flags_differ:
  assumes "flags = replicate d False @ [True]" and "d < n_sphere_points"
    and "\<not> naive_accessible frame atom_radii nb n (point_at cs d)"
  shows "flags \<noteq> map (\<lambda>j. naive_accessible frame atom_radii nb n (point_at cs j)) [0..<n_sphere_points]"
proof
  assume "flags = map (\<lambda>j. naive_accessible frame atom_radii nb n (point_at cs j)) [0..<n_sphere_points]"
  then have "flags ! d = naive_accessible frame atom_radii nb n (point_at cs d)"
    using assms(2) by simp
  moreover have "flags ! d = True"
    unfolding assms(1) by (simp add: nth_append)
  ultimately show False using assms(3) by simp
qed

text \<open>
  Without the bound the claim fails. Atom 0 has the 65536 neighbours
  \<open>1, \<dots>, 65536\<close>, and point \<open>j\<close> of 32769 lies in neighbour \<open>65536 - j\<close> alone, so
  the naive scan finds every point blocked. The loop of \<open>asa_frame\<close> leaves
  \<open>k_closest_neighbor\<close> at \<open>65535 * j\<close> after \<open>j\<close> points; at point 32768 the bound
  \<open>n_neighbor_indices + k_closest_neighbor\<close> wraps around below zero, the scan
  does not run, and the point is found accessible.
\<close>

theorem cyclic_scan_overflow:
  "accessible_flags line_frame (\<lambda>a. 1 / 2) Suc 65536 line_points 32769 0 0
     = Inr (replicate 32768 False @ [True])
   \<and> \<not> naive_accessible line_frame (\<lambda>a. 1 / 2) Suc 65536 (point_at line_points 32768)
   \<and> accessible_flags line_frame (\<lambda>a. 1 / 2) Suc 65536 line_points 32769 0 0
     \<noteq> Inr (map (\<lambda>j. naive_accessible line_frame (\<lambda>a. 1 / 2) Suc 65536 (point_at line_points j))
              [0..<32769])"
proof -
  have e: "(32769 :: nat) = Suc 32768" by simp
  have z: "65535 * int 0 = 0" by simp
  have "(0 :: nat) + 32768 = 32768" by simp
  from line_flags [OF this]
  have a: "accessible_flags line_frame (\<lambda>a. 1 / 2) Suc 65536 line_points (Suc 32768) 0 0
     = Inr (replicate 32768 False @ [True])"
    unfolding z .
  have n: "\<not> naive_accessible line_frame (\<lambda>a. 1 / 2) Suc 65536 (point_at line_points 32768)"
    by (rule line_naive) simp
  have "replicate 32768 False @ [True]
      \<noteq> map (\<lambda>j. naive_accessible line_frame (\<lambda>a. 1 / 2) Suc 65536 (point_at line_points j))
              [0..<Suc 32768]"
    by (rule flags_differ [OF refl _ n]) (rule lessI)
  then have d: "Inr (replicate 32768 False @ [True])
      \<noteq> (Inr (map (\<lambda>j. naive_accessible line_frame (\<lambda>a. 1 / 2) Suc 65536 (point_at line_points j))
              [0..<Suc 32768]) :: error + bool list)"
    by (rule contrapos_nn) (rule Inr_inject)
  show ?thesis
    unfolding e a using n d by (intro conjI) (rule refl, assumption+)
qed

declare generate_loop.simps [simp del] frames_loop.simps [simp del]

lemmas sasa_eval = sasa_def frames_loop.simps generate_sphere_points_def generate_loop.simps
  frame_at_def grid_offset_def

subsection \<open>When the program stops\<close>

lemma scan_neighbors_no_error:
  "0 < n \<Longrightarrow> scan_neighbors frame atom_radii nb n r_j k bound \<noteq> Inl e"
proof (induction frame atom_radii nb n r_j k bound rule: scan_neighbors.induct)
  case (1 frame atom_radii nb n r_j k bound)
  show ?case
  proof (cases "k < bound")
    case False
    then show ?thesis by (simp add: scan_neighbors_past)
  next
    case True
    show ?thesis
    proof (cases "blocked_by frame atom_radii nb r_j (nat (c_rem k (int n)))")
      case b: True
      with True 1(2) show ?thesis by (subst scan_neighbors.simps) (simp add: Let_def)
    next
      case b: False
      from 1(1) [OF True _ refl b 1(2)] 1(2)
      have "scan_neighbors frame atom_radii nb n r_j (k + 1) bound \<noteq> Inl e" by simp
      with True b 1(2) show ?thesis by (subst scan_neighbors.simps) (simp add: Let_def)
    qed
  qed
qed

lemma classify_point_no_error:
  assumes "n = 0 \<longrightarrow> kc = 0"
  shows "\<exists>acc k'. classify_point frame atom_radii nb n r_j kc = Inr (acc, k') \<and> (n = 0 \<longrightarrow> k' = 0)"
proof (cases "n = 0")
  case True
  with assms have "kc = 0" by simp
  moreover have "int32 0 = 0" by (simp add: int32_def)
  ultimately have "classify_point frame atom_radii nb n r_j kc = Inr (True, 0)"
    using True by (simp add: classify_point_def scan_neighbors_past)
  then show ?thesis by blast
next
  case False
  then have "0 < n" by simp
  from scan_neighbors_no_error [OF this, of frame atom_radii nb r_j kc "int32 (int n + kc)"]
  show ?thesis
    using False
    by (cases "scan_neighbors frame atom_radii nb n r_j kc (int32 (int n + kc))")
      (auto simp: classify_point_def split: option.splits)
qed

lemma points_loop_no_error:
  "(n = 0 \<longrightarrow> fst s = 0) \<Longrightarrow>
   points_loop F frame atom_radii nb n cs n_sphere_points counts grid_spacing cst r j s \<noteq> Inl e"
proof (induction F frame atom_radii nb n cs n_sphere_points counts grid_spacing cst r j s
    rule: points_loop.induct)
  case (1 F frame atom_radii nb n cs n_sphere_points counts grid_spacing cst r j s)
  obtain kc g where s: "s = (kc, g)" by (cases s)
  show ?case
  proof (cases "j < n_sphere_points")
    case False
    then show ?thesis by (simp add: points_loop_done)
  next
    case True
    from 1(2) s have "n = 0 \<longrightarrow> kc = 0" by simp
    from classify_point_no_error [OF this, of frame atom_radii nb "point_at cs j"]
    obtain acc k' where
      c: "classify_point frame atom_radii nb n (point_at cs j) kc = Inr (acc, k')"
      and z: "n = 0 \<longrightarrow> k' = 0"
      by blast
    have "points_loop F frame atom_radii nb n cs n_sphere_points counts grid_spacing cst r (j + 1)
        (k', if acc then deposit F counts grid_spacing cst r (point_at cs j) g else g) \<noteq> Inl e"
      using 1(1) [OF True s [symmetric] refl c refl] z by simp
    then show ?thesis
      unfolding s points_loop_step [OF True c] .
  qed
qed


lemma neighbor_loop_error_iff:
  "neighbor_loop F frame n_atoms atom_radii i 0 s = Inl e \<longleftrightarrow>
     e = AtomsOnTop \<and> (\<exists>j. j < n_atoms \<and> on_top F frame i j)"
proof
  assume "neighbor_loop F frame n_atoms atom_radii i 0 s = Inl e"
  from neighbor_loop_Inl [OF this] show "e = AtomsOnTop \<and> (\<exists>j. j < n_atoms \<and> on_top F frame i j)"
    by auto
next
  assume a: "e = AtomsOnTop \<and> (\<exists>j. j < n_atoms \<and> on_top F frame i j)"
  show "neighbor_loop F frame n_atoms atom_radii i 0 s = Inl e"
  proof (cases "neighbor_loop F frame n_atoms atom_radii i 0 s")
    case (Inl e')
    from neighbor_loop_Inl [OF Inl] a Inl show ?thesis by simp
  next
    case (Inr s')
    from neighbor_loop_Inr [OF Inr, THEN conjunct1] a show ?thesis by blast
  qed
qed

lemma atom_step_error_iff:
  "atom_step F frame n_atoms atom_radii sphere_points n_sphere_points amask counts grid_spacing
     cst i s = Inl e \<longleftrightarrow>
   e = AtomsOnTop \<and> amask i \<noteq> 0 \<and> (\<exists>j. j < n_atoms \<and> on_top F frame i j)"
proof -
  obtain nb cs g where s: "s = (nb, cs, g)" by (cases s)
  show ?thesis
  proof (cases "amask i = 0")
    case True
    then show ?thesis by (simp add: atom_step_def s)
  next
    case False
    show ?thesis
    proof (cases "neighbor_loop F frame n_atoms atom_radii i 0 (nb, 0)")
      case (Inl e')
      with False show ?thesis
        using neighbor_loop_error_iff [of F frame n_atoms atom_radii i "(nb, 0)" e']
        by (auto simp: atom_step_def s)
    next
      case (Inr s')
      obtain nb' n where s': "s' = (nb', n)" by (cases s')
      have ne: "\<not> (\<exists>j. j < n_atoms \<and> on_top F frame i j)"
        using neighbor_loop_Inr [OF Inr, THEN conjunct1] by simp
      have "points_loop F frame atom_radii nb' n
          (center_loop frame (atom_radii i) i sphere_points n_sphere_points 0 cs)
          n_sphere_points counts grid_spacing cst (atom_radii i) 0 (0, g) \<noteq> Inl e"
        by (rule points_loop_no_error) simp
      with False Inr s' ne show ?thesis
        by (auto simp: atom_step_def s Let_def split: sum.splits)
    qed
  qed
qed

lemma ex_upward_split:
  fixes i n :: nat
  assumes "i < n"
  shows "(\<exists>k. i \<le> k \<and> k < n \<and> P k) \<longleftrightarrow> P i \<or> (\<exists>k. i + 1 \<le> k \<and> k < n \<and> P k)"
proof
  assume "\<exists>k. i \<le> k \<and> k < n \<and> P k"
  then obtain k where k: "i \<le> k" "k < n" "P k" by blast
  show "P i \<or> (\<exists>k. i + 1 \<le> k \<and> k < n \<and> P k)"
  proof (cases "k = i")
    case True
    with k show ?thesis by simp
  next
    case False
    with k have "i + 1 \<le> k" by simp
    with k show ?thesis by blast
  qed
next
  assume "P i \<or> (\<exists>k. i + 1 \<le> k \<and> k < n \<and> P k)"
  then show "\<exists>k. i \<le> k \<and> k < n \<and> P k"
  proof
    assume "P i"
    with assms show ?thesis by blast
  next
    assume "\<exists>k. i + 1 \<le> k \<and> k < n \<and> P k"
    then obtain k where "i + 1 \<le> k" "k < n" "P k" by blast
    then have "i \<le> k \<and> k < n \<and> P k" by simp
    then show ?thesis by blast
  qed
qed

lemma atoms_loop_error_iff:
  "atoms_loop F frame n_atoms atom_radii sphere_points n_sphere_points amask counts grid_spacing
     cst i s = Inl e \<longleftrightarrow>
   e = AtomsOnTop
   \<and> (\<exists>i'. i \<le> i' \<and> i' < n_atoms \<and> amask i' \<noteq> 0 \<and> (\<exists>j. j < n_atoms \<and> on_top F frame i' j))"
proof (induction F frame n_atoms atom_radii sphere_points n_sphere_points amask counts
    grid_spacing cst i s rule: atoms_loop.induct)
  case (1 F frame n_atoms atom_radii sphere_points n_sphere_points amask counts grid_spacing cst i s)
  let ?D = "\<lambda>i'. amask i' \<noteq> 0 \<and> (\<exists>j. j < n_atoms \<and> on_top F frame i' j)"
  show ?case
  proof (cases "i < n_atoms")
    case False
    then show ?thesis by (subst atoms_loop.simps) auto
  next
    case True
    have split: "(\<exists>i'. i \<le> i' \<and> i' < n_atoms \<and> ?D i') \<longleftrightarrow>
        ?D i \<or> (\<exists>i'. i + 1 \<le> i' \<and> i' < n_atoms \<and> ?D i')"
      by (rule ex_upward_split [OF True])
    show ?thesis
    proof (cases "atom_step F frame n_atoms atom_radii sphere_points n_sphere_points amask counts
        grid_spacing cst i s")
      case (Inl e')
      then have "atoms_loop F frame n_atoms atom_radii sphere_points n_sphere_points amask counts
          grid_spacing cst i s = Inl e'"
        using True by (subst atoms_loop.simps) simp
      moreover from Inl have "e' = AtomsOnTop \<and> ?D i"
        by (simp add: atom_step_error_iff)
      ultimately show ?thesis unfolding split by auto
    next
      case (Inr s1)
      then have "atoms_loop F frame n_atoms atom_radii sphere_points n_sphere_points amask counts
          grid_spacing cst i s
        = atoms_loop F frame n_atoms atom_radii sphere_points n_sphere_points amask counts
          grid_spacing cst (i + 1) s1"
        using True by (subst atoms_loop.simps) simp
      moreover have "\<not> ?D i"
        using Inr atom_step_error_iff [of F frame n_atoms atom_radii sphere_points n_sphere_points
            amask counts grid_spacing cst i s AtomsOnTop]
        by auto
      ultimately show ?thesis
        unfolding split using 1 [OF True Inr] by auto
    qed
  qed
qed

lemma asa_frame_error_iff:
  "asa_frame F frame n_atoms atom_radii sphere_points n_sphere_points nb cs amask out_grid counts
     grid_spacing = Inl e \<longleftrightarrow>
   e = AtomsOnTop \<and> degenerate F frame n_atoms amask"
  by (simp add: asa_frame_def Let_def atoms_loop_error_iff degenerate_def)

lemma frames_loop_error_iff:
  "frames_loop F n_frames n_atoms xyzlist atom_radii sphere_points n_sphere_points amask counts
     grid_spacing i s = Inl e \<longleftrightarrow>
   e = AtomsOnTop
   \<and> (\<exists>k. i \<le> k \<and> k < n_frames \<and> degenerate F (frame_at xyzlist n_atoms k) n_atoms amask)"
proof (induction F n_frames n_atoms xyzlist atom_radii sphere_points n_sphere_points amask counts
    grid_spacing i s rule: frames_loop.induct)
  case (1 F n_frames n_atoms xyzlist atom_radii sphere_points n_sphere_points amask counts
      grid_spacing i s)
  let ?D = "\<lambda>k. degenerate F (frame_at xyzlist n_atoms k) n_atoms amask"
  obtain wb1 wb2 out where s: "s = (wb1, wb2, out)" by (cases s)
  let ?run = "asa_frame F (frame_at xyzlist n_atoms i) n_atoms atom_radii sphere_points
      n_sphere_points wb1 wb2 amask (\<lambda>a. out (grid_offset counts i + a)) counts grid_spacing"
  show ?case
  proof (cases "i < n_frames")
    case False
    then show ?thesis by (subst frames_loop.simps) auto
  next
    case True
    have split: "(\<exists>k. i \<le> k \<and> k < n_frames \<and> ?D k) \<longleftrightarrow>
        ?D i \<or> (\<exists>k. i + 1 \<le> k \<and> k < n_frames \<and> ?D k)"
      by (rule ex_upward_split [OF True])
    show ?thesis
    proof (cases ?run)
      case (Inl e')
      then have "frames_loop F n_frames n_atoms xyzlist atom_radii sphere_points n_sphere_points
          amask counts grid_spacing i s = Inl e'"
        using True s by (subst frames_loop.simps) simp
      moreover from Inl have "e' = AtomsOnTop \<and> ?D i"
        by (simp add: asa_frame_error_iff)
      ultimately show ?thesis unfolding split by auto
    next
      case (Inr s1)
      obtain wb1' wb2' g' where s1: "s1 = (wb1', wb2', g')" by (cases s1)
      have "frames_loop F n_frames n_atoms xyzlist atom_radii sphere_points n_sphere_points
          amask counts grid_spacing i s
        = frames_loop F n_frames n_atoms xyzlist atom_radii sphere_points n_sphere_points
          amask counts grid_spacing (i + 1) (wb1', wb2', \<lambda>a. g' (a - grid_offset counts i))"
        using True s Inr s1 by (subst frames_loop.simps) simp
      moreover have "\<not> ?D i"
        using Inr asa_frame_error_iff [of F "frame_at xyzlist n_atoms i" n_atoms atom_radii
            sphere_points n_sphere_points wb1 wb2 amask "\<lambda>a. out (grid_offset counts i + a)"
            counts grid_spacing AtomsOnTop]
        by auto
      ultimately show ?thesis
        unfolding split using 1 [OF True s [symmetric] refl Inr [unfolded s1] refl refl]
        by auto
    qed
  qed
qed

lemma sasa_error_iff:
  "sasa F n_frames n_atoms xyzlist atom_radii n_sphere_points amask out counts grid_spacing
     sphere_points wb1 wb2 = Inl e \<longleftrightarrow>
   e = AtomsOnTop
   \<and> (\<exists>k. k < n_frames \<and> degenerate F (frame_at xyzlist n_atoms k) n_atoms amask)"
proof -
  have "sasa F n_frames n_atoms xyzlist atom_radii n_sphere_points amask out counts grid_spacing
      sphere_points wb1 wb2 = Inl e \<longleftrightarrow>
    frames_loop F n_frames n_atoms xyzlist atom_radii
      (generate_sphere_points F sphere_points n_sphere_points) n_sphere_points amask counts
      grid_spacing 0 (wb1, wb2, out) = Inl e"
    by (auto simp: sasa_def Let_def split: sum.splits)
  then show ?thesis by (simp add: frames_loop_error_iff)
qed


text \<open>
  The claim fails for a pair of atoms that are both unselected: no scan is
  run for either, and \<open>sasa\<close> returns the (zeroed) grid.
\<close>

theorem sasa_silent_on_unselected_pair:
  "r2_atoms (frame_at (\<lambda>a. 0) 2 0) 0 1 < fl exact (1 / 10 ^ 10)
   \<and> r2_atoms (frame_at (\<lambda>a. 0) 2 0) 1 0 < fl exact (1 / 10 ^ 10)
   \<and> (\<exists>out'. sasa exact 1 2 (\<lambda>a. 0) (\<lambda>j. 1) 1 (\<lambda>i. 0) (\<lambda>a. 5) (\<lambda>i. [2, 2, 2] ! i) 1
                 (\<lambda>a. 0) (\<lambda>p. 0) (\<lambda>a. 0) = Inr out'
          \<and> out' 0 = 0 \<and> out' 7 = 0 \<and> out' 8 = 5)"
  by (simp add: sasa_eval asa_frame_def atoms_loop.simps atom_step_def zero_grid_eq
      total_grid_points_def int32_def r2_atoms_def r_at_def exact_sel Let_def)

text \<open>
  C9. \<open>sasa\<close> validates nothing. Whether it stops depends on the frames, the
  number of atoms and the mask alone (\<open>exit(1)\<close> for an atom on top of a selected
  atom): not on the number of sphere points, the spacing, the counts or the
  radii, whatever their values, and the lengths of the arrays are not passed to
  it.
\<close>

theorem sasa_validates_nothing:
  "(\<exists>e. sasa F n_frames n_atoms xyzlist atom_radii n_sphere_points atom_selection_mask out counts
          grid_spacing sphere_points wb1 wb2 = Inl e)
   \<longleftrightarrow> (\<exists>e. sasa F n_frames n_atoms xyzlist atom_radii' n_sphere_points' atom_selection_mask out'
          counts' grid_spacing' sphere_points' wb1' wb2' = Inl e)"
  unfolding sasa_error_iff by simp

text \<open>
  The claim fails: with no sphere points and a negative spacing the frame is
  processed (its grid is zeroed) and the grid is returned.
\<close>

theorem sasa_accepts_invalid_configuration:
  "\<exists>out'. sasa exact 1 1 (\<lambda>a. 0) (\<lambda>j. 1) 0 (\<lambda>i. 1) (\<lambda>a. 5) (\<lambda>i. [2, 2, 2] ! i) (- 1)
             (\<lambda>a. 0) (\<lambda>p. 0) (\<lambda>a. 0) = Inr out'
      \<and> out' 0 = 0 \<and> out' 7 = 0 \<and> out' 8 = 5"
  by (simp add: sasa_eval asa_eval zero_grid_eq del: zero_grid.simps)

subsection \<open>The centred points\<close>

lemma center_loop_eq:
  "center_loop frame r i sphere_points n_sphere_points j cs
     = (\<lambda>a. if 3 * j \<le> a \<and> a < 3 * n_sphere_points
             then frame (3 * i + a mod 3) + r * sphere_points a else cs a)"
proof (induction frame r i sphere_points n_sphere_points j cs rule: center_loop.induct)
  case (1 frame r i sphere_points n_sphere_points j cs)
  show ?case
  proof (cases "j < n_sphere_points")
    case False
    then show ?thesis by (subst center_loop.simps) (auto simp: fun_eq_iff)
  next
    case True
    let ?cs = "cs(3 * j := frame (3 * i) + r * sphere_points (3 * j),
                  3 * j + 1 := frame (3 * i + 1) + r * sphere_points (3 * j + 1),
                  3 * j + 2 := frame (3 * i + 2) + r * sphere_points (3 * j + 2))"
    have m: "(3 * j) mod 3 = 0" "(3 * j + 1) mod 3 = 1" "(3 * j + 2) mod 3 = 2"
      by presburger+
    have "center_loop frame r i sphere_points n_sphere_points j cs
        = center_loop frame r i sphere_points n_sphere_points (j + 1) ?cs"
      using True by (subst center_loop.simps) simp
    also have "\<dots> = (\<lambda>a. if 3 * (j + 1) \<le> a \<and> a < 3 * n_sphere_points
             then frame (3 * i + a mod 3) + r * sphere_points a else ?cs a)"
      by (rule 1 [OF True])
    also have "\<dots> = (\<lambda>a. if 3 * j \<le> a \<and> a < 3 * n_sphere_points
             then frame (3 * i + a mod 3) + r * sphere_points a else cs a)"
    proof (rule ext)
      fix a :: nat
      have "a = 3 * j \<or> a = 3 * j + 1 \<or> a = 3 * j + 2 \<or> a < 3 * j \<or> 3 * (j + 1) \<le> a"
        by arith
      then consider "a = 3 * j" | "a = 3 * j + 1" | "a = 3 * j + 2" | "a < 3 * j" | "3 * (j + 1) \<le> a"
        by blast
      then show "(if 3 * (j + 1) \<le> a \<and> a < 3 * n_sphere_points
             then frame (3 * i + a mod 3) + r * sphere_points a else ?cs a)
          = (if 3 * j \<le> a \<and> a < 3 * n_sphere_points
             then frame (3 * i + a mod 3) + r * sphere_points a else cs a)"
      proof cases
        case 1 then show ?thesis using True m by simp
      next
        case 2 then show ?thesis using True m by simp
      next
        case 3 then show ?thesis using True m by simp
      next
        case 4 then show ?thesis by simp
      next
        case 5 then show ?thesis by simp
      qed
    qed
    finally show ?thesis .
  qed
qed

lemma point_at_center_loop:
  assumes "j < n_sphere_points"
  shows "point_at (center_loop frame r i sphere_points n_sphere_points 0 cs) j
           = centered_point frame r i sphere_points j"
proof -
  have m: "(3 * j) mod 3 = 0" "(3 * j + 1) mod 3 = 1" "(3 * j + 2) mod 3 = 2"
    by presburger+
  have b: "3 * j < 3 * n_sphere_points" "3 * j + 1 < 3 * n_sphere_points"
    "3 * j + 2 < 3 * n_sphere_points"
    using assms by simp_all
  show ?thesis
    unfolding point_at_def centered_point_def center_loop_eq using m b by simp
qed

lemma deposit_cell:
  "deposit F counts grid_spacing cst r r_j g
     = (if point_in_grid F counts grid_spacing r_j
        then g(point_cell F counts grid_spacing r_j
                 := g (point_cell F counts grid_spacing r_j) + cst * r * r)
        else g)"
  by (simp add: deposit_def point_in_grid_def point_cell_def Let_def del: One_nat_def)


subsection \<open>An atom without neighbours\<close>

lemma neighbor_loop_isolated:
  assumes "\<forall>j. j < n_atoms \<longrightarrow> \<not> within_cutoff frame atom_radii i j"
    and "\<forall>j. j < n_atoms \<longrightarrow> \<not> on_top F frame i j"
  shows "\<exists>nb'. neighbor_loop F frame n_atoms atom_radii i 0 (nb, 0) = Inr (nb', 0)"
proof (cases "neighbor_loop F frame n_atoms atom_radii i 0 (nb, 0)")
  case (Inl e)
  then have "\<exists>j. j < n_atoms \<and> on_top F frame i j"
    by (simp add: neighbor_loop_error_iff)
  with assms(2) show ?thesis by blast
next
  case (Inr s')
  have "filter (within_cutoff frame atom_radii i) [0..<n_atoms] = []"
    using assms(1) by (simp add: filter_empty_conv)
  with neighbor_loop_Inr [OF Inr, THEN conjunct2, THEN conjunct1] have "snd s' = 0" by simp
  with Inr show ?thesis by (cases s') simp
qed

lemma points_loop_empty_list:
  "\<exists>k'. points_loop F frame atom_radii nb 0 cs n_sphere_points counts grid_spacing cst r 0 (0, g)
     = Inr (k', fold (deposit F counts grid_spacing cst r) (map (point_at cs) [0..<n_sphere_points]) g)"
proof -
  have "int (0 + (n_sphere_points - 1) * (0 - 1)) \<le> INT_MAX" by (simp add: INT_MAX_def)
  from accessible_flags_naive [OF this, of 0 0 frame atom_radii nb cs]
  have fl: "accessible_flags frame atom_radii nb 0 cs n_sphere_points 0 0
      = Inr (replicate n_sphere_points True)"
    by (simp add: naive_accessible_def map_replicate_const)
  have "fold (\<lambda>(j, acc) g. if acc then deposit F counts grid_spacing cst r (point_at cs j) g else g)
          (zip js (replicate (length js) True)) g
      = fold (deposit F counts grid_spacing cst r) (map (point_at cs) js) g" for js g
    by (induction js arbitrary: g) simp_all
  from this [of "[0..<n_sphere_points]" g] points_loop_flags [OF fl, of F counts grid_spacing cst r g]
  show ?thesis by simp
qed

lemma fold_deposit_outside:
  "a \<notin> point_cell F counts grid_spacing ` {p \<in> set ps. point_in_grid F counts grid_spacing p} \<Longrightarrow>
   fold (deposit F counts grid_spacing cst r) ps g a = g a"
proof (induction ps arbitrary: g)
  case Nil
  show ?case by simp
next
  case (Cons p ps)
  have "a \<notin> point_cell F counts grid_spacing ` {p \<in> set ps. point_in_grid F counts grid_spacing p}"
    using Cons(2) by auto
  from Cons(1) [OF this]
  have "fold (deposit F counts grid_spacing cst r) (p # ps) g a
      = deposit F counts grid_spacing cst r p g a"
    by simp
  also have "\<dots> = g a"
    using Cons(2) by (auto simp: deposit_cell)
  finally show ?case .
qed

lemma fold_deposit_sum:
  fixes g :: "real grid"
  assumes "finite S"
    and "\<forall>p \<in> set ps. point_in_grid F counts grid_spacing p \<longrightarrow> point_cell F counts grid_spacing p \<in> S"
  shows "(\<Sum>a\<in>S. fold (deposit F counts grid_spacing cst r) ps g a)
     = (\<Sum>a\<in>S. g a) + real (length (filter (point_in_grid F counts grid_spacing) ps)) * (cst * r * r)"
  using assms(2)
proof (induction ps arbitrary: g)
  case Nil
  show ?case by simp
next
  case (Cons p ps)
  let ?g = "deposit F counts grid_spacing cst r p g"
  have ih: "(\<Sum>a\<in>S. fold (deposit F counts grid_spacing cst r) ps ?g a)
     = (\<Sum>a\<in>S. ?g a) + real (length (filter (point_in_grid F counts grid_spacing) ps)) * (cst * r * r)"
    using Cons(2) by (intro Cons(1)) simp
  show ?case
  proof (cases "point_in_grid F counts grid_spacing p")
    case False
    then have "?g = g" by (simp add: deposit_cell)
    with ih False show ?thesis by simp
  next
    case True
    let ?c = "point_cell F counts grid_spacing p"
    have c: "?c \<in> S" using Cons(2) True by simp
    have "?g = g(?c := g ?c + cst * r * r)" using True by (simp add: deposit_cell)
    then have "(\<Sum>a\<in>S. ?g a) = (\<Sum>a\<in>S. if a = ?c then g a + cst * r * r else g a)"
      by (intro sum.cong) simp_all
    also have "\<dots> = (\<Sum>a\<in>S. g a + (if a = ?c then cst * r * r else 0))"
      by (intro sum.cong) simp_all
    also have "\<dots> = (\<Sum>a\<in>S. g a) + (\<Sum>a\<in>S. if a = ?c then cst * r * r else 0)"
      by (rule sum.distrib)
    also have "(\<Sum>a\<in>S. if a = ?c then cst * r * r else 0) = cst * r * r"
      using assms(1) c by simp
    finally have "(\<Sum>a\<in>S. ?g a) = (\<Sum>a\<in>S. g a) + cst * r * r" .
    with ih True show ?thesis by (simp add: algebra_simps)
  qed
qed

lemma atom_step_alone:
  assumes sel: "atom_selection_mask i \<noteq> 0"
    and iso: "\<forall>j. j < n_atoms \<longrightarrow> \<not> within_cutoff frame atom_radii i j"
    and nt: "\<forall>j. j < n_atoms \<longrightarrow> \<not> on_top F frame i j"
  shows "\<exists>nb'. neighbor_loop F frame n_atoms atom_radii i 0 (nb, 0) = Inr (nb', 0)
         \<and> atom_step F frame n_atoms atom_radii sphere_points n_sphere_points
              atom_selection_mask counts grid_spacing cst i (nb, cs, g)
           = Inr (nb', center_loop frame (atom_radii i) i sphere_points n_sphere_points 0 cs,
                  fold (deposit F counts grid_spacing cst (atom_radii i))
                    (atom_points frame atom_radii i sphere_points n_sphere_points) g)"
proof -
  let ?cs = "center_loop frame (atom_radii i) i sphere_points n_sphere_points 0 cs"
  from neighbor_loop_isolated [OF iso nt, of nb] obtain nb' where
    n: "neighbor_loop F frame n_atoms atom_radii i 0 (nb, 0) = Inr (nb', 0)" by blast
  from points_loop_empty_list [of F frame atom_radii nb' ?cs n_sphere_points counts grid_spacing
      cst "atom_radii i" g]
  obtain k' where
    p: "points_loop F frame atom_radii nb' 0 ?cs n_sphere_points counts grid_spacing cst
          (atom_radii i) 0 (0, g)
        = Inr (k', fold (deposit F counts grid_spacing cst (atom_radii i))
                     (map (point_at ?cs) [0..<n_sphere_points]) g)"
    by blast
  have "map (point_at ?cs) [0..<n_sphere_points]
      = atom_points frame atom_radii i sphere_points n_sphere_points"
    unfolding atom_points_def by (intro map_cong refl) (simp add: point_at_center_loop)
  with sel n p have "atom_step F frame n_atoms atom_radii sphere_points n_sphere_points
        atom_selection_mask counts grid_spacing cst i (nb, cs, g)
      = Inr (nb', ?cs, fold (deposit F counts grid_spacing cst (atom_radii i))
                    (atom_points frame atom_radii i sphere_points n_sphere_points) g)"
    by (simp add: atom_step_def Let_def)
  with n show ?thesis by blast
qed

text \<open>
  C8. For a selected atom \<open>i\<close> that has no atom within its cutoff and none on top
  of it, whatever the arithmetic: the neighbour scan ends and leaves an empty
  list; the iteration of the loop over the atoms ends; with that list, every
  point of the atom is found accessible; the points classified are the sphere
  points scaled by the radius and centred on the atom; each of them is
  deposited in turn, which adds \<open>(4 \<pi> / n_sphere_points) r\<^sup>2\<close> to the cell of a point
  whose voxel passes the bounds check and nothing for a point whose voxel fails
  it, and no other cell changes. So \<open>n_sphere_points - k\<close> contributions are
  made, \<open>k\<close> being the number of points that fail the bounds check; with the
  contribution computed exactly, for a radius \<open>R\<close> and at least one sphere
  point, they sum to \<open>4 \<pi> R\<^sup>2\<close> minus \<open>k\<close> times \<open>(4 \<pi> / n_sphere_points) R\<^sup>2\<close>.
\<close>

theorem isolated_atom_area:
  assumes sel: "atom_selection_mask i \<noteq> 0"
    and iso: "\<forall>j. j < n_atoms \<longrightarrow> \<not> within_cutoff frame atom_radii i j"
    and nt: "\<forall>j. j < n_atoms \<longrightarrow> \<not> on_top F frame i j"
  shows "\<exists>nb' n cs' g'.
      neighbor_loop F frame n_atoms atom_radii i 0 (nb, 0) = Inr (nb', n) \<and> n = 0
    \<and> atom_step F frame n_atoms atom_radii sphere_points n_sphere_points atom_selection_mask
        counts grid_spacing (area_constant F n_sphere_points) i (nb, cs, g) = Inr (nb', cs', g')
    \<and> accessible_flags frame atom_radii nb' n cs' n_sphere_points 0 0
        = Inr (replicate n_sphere_points True)
    \<and> map (point_at cs') [0..<n_sphere_points]
        = atom_points frame atom_radii i sphere_points n_sphere_points
    \<and> g' = fold (deposit F counts grid_spacing (area_constant F n_sphere_points) (atom_radii i))
              (atom_points frame atom_radii i sphere_points n_sphere_points) g
    \<and> (\<forall>a. a \<notin> point_cell F counts grid_spacing `
              {p \<in> set (atom_points frame atom_radii i sphere_points n_sphere_points).
                 point_in_grid F counts grid_spacing p} \<longrightarrow> g' a = g a)
    \<and> length (filter (point_in_grid F counts grid_spacing)
          (atom_points frame atom_radii i sphere_points n_sphere_points))
        = n_sphere_points
          - length (filter (\<lambda>p. \<not> point_in_grid F counts grid_spacing p)
              (atom_points frame atom_radii i sphere_points n_sphere_points))
    \<and> (\<forall>R. 0 < n_sphere_points \<longrightarrow>
          real (length (filter (point_in_grid F counts grid_spacing)
                 (atom_points frame atom_radii i sphere_points n_sphere_points)))
            * (area_constant exact n_sphere_points * R * R)
          = 4 * pi * R\<^sup>2
            - real (length (filter (\<lambda>p. \<not> point_in_grid F counts grid_spacing p)
                      (atom_points frame atom_radii i sphere_points n_sphere_points)))
              * (4 * pi / real n_sphere_points * R\<^sup>2))"
proof -
  let ?r = "atom_radii i"
  let ?c = "area_constant F n_sphere_points"
  let ?ps = "atom_points frame atom_radii i sphere_points n_sphere_points"
  let ?ok = "point_in_grid F counts grid_spacing"
  let ?C = "point_cell F counts grid_spacing ` {p \<in> set ?ps. ?ok p}"
  let ?cs = "center_loop frame ?r i sphere_points n_sphere_points 0 cs"
  let ?g = "fold (deposit F counts grid_spacing ?c ?r) ?ps g"
  from atom_step_alone [where atom_selection_mask = atom_selection_mask and i = i
      and atom_radii = atom_radii and frame = frame and F = F and n_atoms = n_atoms
      and sphere_points = sphere_points and n_sphere_points = n_sphere_points and counts = counts
      and grid_spacing = grid_spacing and cst = ?c and nb = nb and cs = cs and g = g,
      OF sel iso nt]
  obtain nb' where
    nl: "neighbor_loop F frame n_atoms atom_radii i 0 (nb, 0) = Inr (nb', 0)"
    and st: "atom_step F frame n_atoms atom_radii sphere_points n_sphere_points
        atom_selection_mask counts grid_spacing ?c i (nb, cs, g) = Inr (nb', ?cs, ?g)"
    by blast
  have "int (0 + (n_sphere_points - 1) * (0 - 1)) \<le> INT_MAX" by (simp add: INT_MAX_def)
  from accessible_flags_naive [OF this, of 0 0 frame atom_radii nb' ?cs]
  have fl: "accessible_flags frame atom_radii nb' 0 ?cs n_sphere_points 0 0
      = Inr (replicate n_sphere_points True)"
    by (simp add: naive_accessible_def map_replicate_const)
  have pts: "map (point_at ?cs) [0..<n_sphere_points] = ?ps"
    unfolding atom_points_def by (intro map_cong refl) (simp add: point_at_center_loop)
  have len: "length ?ps = n_sphere_points" by (simp add: atom_points_def)
  have tot: "length (filter ?ok ?ps) + length (filter (\<lambda>p. \<not> ?ok p) ?ps) = n_sphere_points"
    using sum_length_filter_compl [of ?ok ?ps] len by simp
  then have cnt: "length (filter ?ok ?ps) = n_sphere_points - length (filter (\<lambda>p. \<not> ?ok p) ?ps)"
    by simp
  have out: "\<forall>a. a \<notin> ?C \<longrightarrow> ?g a = g a"
    by (intro allI impI fold_deposit_outside)
  have sm: "\<forall>R. 0 < n_sphere_points \<longrightarrow>
      real (length (filter ?ok ?ps)) * (area_constant exact n_sphere_points * R * R)
      = 4 * pi * R\<^sup>2
        - real (length (filter (\<lambda>p. \<not> ?ok p) ?ps)) * (4 * pi / real n_sphere_points * R\<^sup>2)"
  proof (intro allI impI)
    fix R :: real
    assume N: "0 < n_sphere_points"
    have v: "area_constant exact n_sphere_points * R * R = 4 * pi / real n_sphere_points * R\<^sup>2"
      by (simp add: area_constant_def exact_sel power2_eq_square)
    have "real (length (filter ?ok ?ps))
        = real n_sphere_points - real (length (filter (\<lambda>p. \<not> ?ok p) ?ps))"
      using tot by linarith
    then have "real (length (filter ?ok ?ps)) * (area_constant exact n_sphere_points * R * R)
        = (real n_sphere_points - real (length (filter (\<lambda>p. \<not> ?ok p) ?ps)))
          * (4 * pi / real n_sphere_points * R\<^sup>2)"
      unfolding v by simp
    also have "\<dots> = 4 * pi * R\<^sup>2
        - real (length (filter (\<lambda>p. \<not> ?ok p) ?ps)) * (4 * pi / real n_sphere_points * R\<^sup>2)"
      using N by (simp add: algebra_simps)
    finally show "real (length (filter ?ok ?ps)) * (area_constant exact n_sphere_points * R * R)
      = 4 * pi * R\<^sup>2
        - real (length (filter (\<lambda>p. \<not> ?ok p) ?ps)) * (4 * pi / real n_sphere_points * R\<^sup>2)" .
  qed
  from nl st fl pts out cnt sm show ?thesis by blast
qed
theorem isolated_atom_area_witness:
  "(1 :: int) \<noteq> 0
   \<and> \<not> within_cutoff (\<lambda>a. [1, 1, 1 :: real] ! a) (\<lambda>j. 1) 0 0
   \<and> \<not> on_top exact (\<lambda>a. [1, 1, 1] ! a) 0 0
   \<and> atom_points (\<lambda>a. [1, 1, 1] ! a) (\<lambda>j. 1) 0 (\<lambda>a. [1, 0, 0, - 3, 0, 0] ! a) 2
       = [fvec4 2 1 1 0, fvec4 (- 2) 1 1 (0 :: real)]
   \<and> (\<exists>nb' cs' g'.
         atom_step exact (\<lambda>a. [1, 1, 1] ! a) 1 (\<lambda>j. 1) (\<lambda>a. [1, 0, 0, - 3, 0, 0] ! a) 2 (\<lambda>i. 1)
           (\<lambda>i. [4, 4, 4] ! i) 1 (area_constant exact 2) 0 (\<lambda>p. 0, \<lambda>a. 0, \<lambda>a. 7)
           = Inr (nb', cs', g')
       \<and> accessible_flags (\<lambda>a. [1, 1, 1] ! a) (\<lambda>j. 1) nb' 0 cs' 2 0 0 = Inr [True, True]
       \<and> g' 22 = 7 + 4 * pi / 2 \<and> g' 5 = 7)
   \<and> real 1 * (area_constant exact 2 * 1 * 1) = 4 * pi * 1\<^sup>2 - real 1 * (4 * pi / real 2 * 1\<^sup>2)"
proof -
  let ?f = "\<lambda>a::nat. [1, 1, 1 :: real] ! a"
  let ?s = "\<lambda>a::nat. [1, 0, 0, - 3, 0, 0 :: real] ! a"
  let ?C = "\<lambda>i::nat. [4, 4, 4 :: int] ! i"
  let ?ps = "atom_points ?f (\<lambda>j. 1) 0 ?s 2"
  have h: "(\<lambda>i::nat. 1 :: int) 0 \<noteq> 0"
    "\<forall>j. j < (1 :: nat) \<longrightarrow> \<not> within_cutoff ?f (\<lambda>j. 1) 0 j"
    "\<forall>j. j < (1 :: nat) \<longrightarrow> \<not> on_top exact ?f 0 j"
    by (simp_all add: within_cutoff_def on_top_def)
  have u: "[0..<2] = [0, 1]" by (simp add: upt_rec)
  have ps: "?ps = [fvec4 2 1 1 0, fvec4 (- 2) 1 1 0]"
    by (simp add: atom_points_def centered_point_def u)
  have ok: "point_in_grid exact ?C 1 (fvec4 2 1 1 0)" "\<not> point_in_grid exact ?C 1 (fvec4 (- 2) 1 1 0)"
    by (simp_all add: point_in_grid_def voxel_def in_bounds_def exact_sel c_roundf_def c_trunc_def)
  have cell: "point_cell exact ?C 1 (fvec4 2 1 1 0) = 22"
    by (simp add: point_cell_def voxel_def grid_index_def int32_def exact_sel c_roundf_def c_trunc_def)
  have n: "length (filter (point_in_grid exact ?C 1) [fvec4 2 1 1 0, fvec4 (- 2) 1 1 0]) = 1"
    "length (filter (\<lambda>p. \<not> point_in_grid exact ?C 1 p) [fvec4 2 1 1 0, fvec4 (- 2) 1 1 0]) = 1"
    using ok by simp_all
  have r: "replicate 2 True = [True, True]" by (simp add: numeral_2_eq_2)
  from isolated_atom_area [where atom_selection_mask = "\<lambda>i. 1" and i = 0 and F = exact
      and n_atoms = 1 and frame = ?f and atom_radii = "\<lambda>j. 1" and sphere_points = ?s
      and n_sphere_points = 2 and counts = ?C and grid_spacing = 1 and nb = "\<lambda>p. 0"
      and cs = "\<lambda>a. 0" and g = "\<lambda>a. 7", OF h, unfolded n ps r]
  obtain nb' cs' g' where
    st: "atom_step exact ?f 1 (\<lambda>j. 1) ?s 2 (\<lambda>i. 1) ?C 1 (area_constant exact 2) 0 (\<lambda>p. 0, \<lambda>a. 0, \<lambda>a. 7)
       = Inr (nb', cs', g')"
    and fl: "accessible_flags ?f (\<lambda>j. 1) nb' 0 cs' 2 0 0 = Inr [True, True]"
    and g': "g' = fold (deposit exact ?C 1 (area_constant exact 2) 1)
                    [fvec4 2 1 1 0, fvec4 (- 2) 1 1 0] (\<lambda>a. 7)"
    and sm: "\<forall>R. (0 :: nat) < 2 \<longrightarrow>
        real 1 * (area_constant exact 2 * R * R) = 4 * pi * R\<^sup>2 - real 1 * (4 * pi / real 2 * R\<^sup>2)"
    by blast
  have v: "g' 22 = 7 + 4 * pi / 2" "g' 5 = 7"
    unfolding g' using ok cell by (simp_all add: deposit_cell area_constant_def exact_sel)
  from st fl v have "\<exists>nb' cs' g'.
         atom_step exact ?f 1 (\<lambda>j. 1) ?s 2 (\<lambda>i. 1) ?C 1 (area_constant exact 2) 0 (\<lambda>p. 0, \<lambda>a. 0, \<lambda>a. 7)
           = Inr (nb', cs', g')
       \<and> accessible_flags ?f (\<lambda>j. 1) nb' 0 cs' 2 0 0 = Inr [True, True]
       \<and> g' 22 = 7 + 4 * pi / 2 \<and> g' 5 = 7"
    by blast
  moreover have "real 1 * (area_constant exact 2 * 1 * 1)
      = 4 * pi * 1\<^sup>2 - real 1 * (4 * pi / real 2 * 1\<^sup>2)"
    using sm [rule_format, of 1] by simp
  ultimately show ?thesis using h ps
    by (simp add: within_cutoff_def on_top_def)
qed

text \<open>
  The claim fails for an atom that has no atom within its cutoff but one on top
  of it: with radii \<open>2\<^sup>-\<^sup>2\<^sup>0\<close> and the two atoms \<open>3 * 2\<^sup>-\<^sup>2\<^sup>0\<close> apart, the
  squared distance \<open>9 * 2\<^sup>-\<^sup>4\<^sup>0\<close> is above the squared cutoff \<open>4 * 2\<^sup>-\<^sup>4\<^sup>0\<close> and below
  \<open>1e-10\<close>; the program stops, and no point is classified.
\<close>

theorem isolated_atom_on_top:
  "\<not> within_cutoff (\<lambda>a. [0, 0, 0, 3 / 1048576, 0, 0 :: real] ! a) (\<lambda>j. 1 / 1048576) 0 0
   \<and> \<not> within_cutoff (\<lambda>a. [0, 0, 0, 3 / 1048576, 0, 0 :: real] ! a) (\<lambda>j. 1 / 1048576) 0 1
   \<and> atom_step exact (\<lambda>a. [0, 0, 0, 3 / 1048576, 0, 0] ! a) 2 (\<lambda>j. 1 / 1048576)
       (\<lambda>a. [1, 0, 0] ! a) 1 (\<lambda>i. 1) (\<lambda>i. [4, 4, 4] ! i) 1 (area_constant exact 1) 0
       (\<lambda>p. 0, \<lambda>a. 0, \<lambda>a. 0)
     = Inl AtomsOnTop"
proof -
  let ?f = "\<lambda>a::nat. [0, 0, 0, 3 / 1048576, 0, 0 :: real] ! a"
  have w: "\<not> within_cutoff ?f (\<lambda>j. 1 / 1048576) 0 0" "\<not> within_cutoff ?f (\<lambda>j. 1 / 1048576) 0 1"
    by (simp_all add: within_cutoff_def r2_atoms_def r_at_def radius_cutoff2_def Let_def)
  have "on_top exact ?f 0 1"
    by (simp add: on_top_def r2_atoms_def r_at_def exact_sel Let_def)
  then have "\<exists>j. j < (2 :: nat) \<and> on_top exact ?f 0 j" by (intro exI [of _ 1]) simp
  then have "atom_step exact ?f 2 (\<lambda>j. 1 / 1048576) (\<lambda>a. [1, 0, 0] ! a) 1 (\<lambda>i. 1)
      (\<lambda>i. [4, 4, 4] ! i) 1 (area_constant exact 1) 0 (\<lambda>p. 0, \<lambda>a. 0, \<lambda>a. 0) = Inl AtomsOnTop"
    by (simp add: atom_step_error_iff)
  with w show ?thesis by simp
qed
text \<open>
  The same atom with the arithmetic idealised as the real numbers, a spacing
  that is not zero and at least one sphere point: what the iteration adds to
  the cells of the grid sums to \<open>4 \<pi> r\<^sup>2\<close> minus \<open>(4 \<pi> / n_sphere_points) r\<^sup>2\<close> for
  each point whose voxel fails the bounds check.
\<close>

theorem isolated_atom_cell_sum:
  assumes N: "0 < n_sphere_points"
    and gs: "grid_spacing \<noteq> 0"
    and sel: "atom_selection_mask i \<noteq> 0"
    and iso: "\<forall>j. j < n_atoms \<longrightarrow> \<not> within_cutoff frame atom_radii i j"
    and nt: "\<forall>j. j < n_atoms \<longrightarrow> \<not> on_top exact frame i j"
  shows "\<exists>nb' cs' g'.
      atom_step exact frame n_atoms atom_radii sphere_points n_sphere_points atom_selection_mask
        counts grid_spacing (area_constant exact n_sphere_points) i (nb, cs, g) = Inr (nb', cs', g')
    \<and> (\<Sum>a \<in> point_cell exact counts grid_spacing `
              {p \<in> set (atom_points frame atom_radii i sphere_points n_sphere_points).
                 point_in_grid exact counts grid_spacing p}. g' a - g a)
        = 4 * pi * (atom_radii i)\<^sup>2
          - real (length (filter (\<lambda>p. \<not> point_in_grid exact counts grid_spacing p)
                     (atom_points frame atom_radii i sphere_points n_sphere_points)))
            * (4 * pi / real n_sphere_points * (atom_radii i)\<^sup>2)"
proof -
  let ?r = "atom_radii i"
  let ?c = "area_constant exact n_sphere_points"
  let ?ps = "atom_points frame atom_radii i sphere_points n_sphere_points"
  let ?ok = "point_in_grid exact counts grid_spacing"
  let ?C = "point_cell exact counts grid_spacing ` {p \<in> set ?ps. ?ok p}"
  let ?cs = "center_loop frame ?r i sphere_points n_sphere_points 0 cs"
  let ?g = "fold (deposit exact counts grid_spacing ?c ?r) ?ps g"
  from atom_step_alone [where atom_selection_mask = atom_selection_mask and i = i
      and atom_radii = atom_radii and frame = frame and F = exact and n_atoms = n_atoms
      and sphere_points = sphere_points and n_sphere_points = n_sphere_points and counts = counts
      and grid_spacing = grid_spacing and cst = ?c and nb = nb and cs = cs and g = g,
      OF sel iso nt]
  obtain nb' where
    st: "atom_step exact frame n_atoms atom_radii sphere_points n_sphere_points atom_selection_mask
        counts grid_spacing ?c i (nb, cs, g) = Inr (nb', ?cs, ?g)"
    by blast
  have fin: "finite ?C" by simp
  have len: "length ?ps = n_sphere_points" by (simp add: atom_points_def)
  have "length (filter ?ok ?ps) + length (filter (\<lambda>p. \<not> ?ok p) ?ps) = n_sphere_points"
    using sum_length_filter_compl [of ?ok ?ps] len by simp
  then have cnt: "real (length (filter ?ok ?ps))
      = real n_sphere_points - real (length (filter (\<lambda>p. \<not> ?ok p) ?ps))"
    by linarith
  have v: "?c * ?r * ?r = 4 * pi / real n_sphere_points * ?r\<^sup>2"
    by (simp add: area_constant_def exact_sel power2_eq_square)
  have "(\<Sum>a\<in>?C. ?g a) = (\<Sum>a\<in>?C. g a) + real (length (filter ?ok ?ps)) * (?c * ?r * ?r)"
    by (rule fold_deposit_sum [OF fin]) simp
  then have "(\<Sum>a\<in>?C. ?g a - g a) = real (length (filter ?ok ?ps)) * (?c * ?r * ?r)"
    by (simp add: sum_subtractf)
  also have "\<dots> = (real n_sphere_points - real (length (filter (\<lambda>p. \<not> ?ok p) ?ps)))
      * (4 * pi / real n_sphere_points * ?r\<^sup>2)"
    unfolding cnt v ..
  also have "\<dots> = 4 * pi * ?r\<^sup>2
      - real (length (filter (\<lambda>p. \<not> ?ok p) ?ps)) * (4 * pi / real n_sphere_points * ?r\<^sup>2)"
    using N by (simp add: algebra_simps)
  finally have sm: "(\<Sum>a\<in>?C. ?g a - g a) = 4 * pi * ?r\<^sup>2
      - real (length (filter (\<lambda>p. \<not> ?ok p) ?ps)) * (4 * pi / real n_sphere_points * ?r\<^sup>2)" .
  from st sm show ?thesis by blast
qed

theorem isolated_atom_cell_sum_witness:
  "(0 :: nat) < 2 \<and> (1 :: real) \<noteq> 0 \<and> (1 :: int) \<noteq> 0
   \<and> \<not> within_cutoff (\<lambda>a. [1, 1, 1 :: real] ! a) (\<lambda>j. 1) 0 0
   \<and> \<not> on_top exact (\<lambda>a. [1, 1, 1] ! a) 0 0
   \<and> (\<exists>nb' cs' g'.
         atom_step exact (\<lambda>a. [1, 1, 1] ! a) 1 (\<lambda>j. 1) (\<lambda>a. [1, 0, 0, - 3, 0, 0] ! a) 2 (\<lambda>i. 1)
           (\<lambda>i. [4, 4, 4] ! i) 1 (area_constant exact 2) 0 (\<lambda>p. 0, \<lambda>a. 0, \<lambda>a. 7)
           = Inr (nb', cs', g')
       \<and> g' 22 - 7 = 4 * pi * 1\<^sup>2 - real 1 * (4 * pi / real 2 * 1\<^sup>2))"
proof -
  let ?f = "\<lambda>a::nat. [1, 1, 1 :: real] ! a"
  let ?s = "\<lambda>a::nat. [1, 0, 0, - 3, 0, 0 :: real] ! a"
  let ?C = "\<lambda>i::nat. [4, 4, 4 :: int] ! i"
  let ?ps = "atom_points ?f (\<lambda>j. 1) 0 ?s 2"
  have h: "(0 :: nat) < 2" "(1 :: real) \<noteq> 0" "(\<lambda>i::nat. 1 :: int) 0 \<noteq> 0"
    "\<forall>j. j < (1 :: nat) \<longrightarrow> \<not> within_cutoff ?f (\<lambda>j. 1) 0 j"
    "\<forall>j. j < (1 :: nat) \<longrightarrow> \<not> on_top exact ?f 0 j"
    by (simp_all add: within_cutoff_def on_top_def)
  have u: "[0..<2] = [0, 1]" by (simp add: upt_rec)
  have ps: "?ps = [fvec4 2 1 1 0, fvec4 (- 2) 1 1 0]"
    by (simp add: atom_points_def centered_point_def u)
  have ok: "point_in_grid exact ?C 1 (fvec4 2 1 1 0)" "\<not> point_in_grid exact ?C 1 (fvec4 (- 2) 1 1 0)"
    by (simp_all add: point_in_grid_def voxel_def in_bounds_def exact_sel c_roundf_def c_trunc_def)
  have cell: "point_cell exact ?C 1 (fvec4 2 1 1 0) = 22"
    by (simp add: point_cell_def voxel_def grid_index_def int32_def exact_sel c_roundf_def c_trunc_def)
  have C: "point_cell exact ?C 1 `
      {p \<in> set [fvec4 2 1 1 0, fvec4 (- 2) 1 1 0]. point_in_grid exact ?C 1 p} = {22}"
    using ok cell by auto
  have n: "length (filter (\<lambda>p. \<not> point_in_grid exact ?C 1 p) [fvec4 2 1 1 0, fvec4 (- 2) 1 1 0]) = 1"
    using ok by simp
  from isolated_atom_cell_sum [where n_sphere_points = 2 and atom_selection_mask = "\<lambda>i. 1"
      and i = 0 and n_atoms = 1 and frame = ?f and atom_radii = "\<lambda>j. 1" and sphere_points = ?s
      and counts = ?C and grid_spacing = 1 and nb = "\<lambda>p. 0" and cs = "\<lambda>a. 0" and g = "\<lambda>a. 7",
      OF h, unfolded ps C n]
  obtain nb' cs' g' where
    "atom_step exact ?f 1 (\<lambda>j. 1) ?s 2 (\<lambda>i. 1) ?C 1 (area_constant exact 2) 0 (\<lambda>p. 0, \<lambda>a. 0, \<lambda>a. 7)
       = Inr (nb', cs', g')"
    and "(\<Sum>a\<in>{22}. g' a - 7) = 4 * pi * 1\<^sup>2 - real 1 * (4 * pi / real 2 * 1\<^sup>2)"
    by blast
  then have "\<exists>nb' cs' g'.
         atom_step exact ?f 1 (\<lambda>j. 1) ?s 2 (\<lambda>i. 1) ?C 1 (area_constant exact 2) 0 (\<lambda>p. 0, \<lambda>a. 0, \<lambda>a. 7)
           = Inr (nb', cs', g')
       \<and> g' 22 - 7 = 4 * pi * 1\<^sup>2 - real 1 * (4 * pi / real 2 * 1\<^sup>2)"
    by (intro exI [of _ nb'] exI [of _ cs'] exI [of _ g']) simp
  with h show ?thesis
    by (simp add: within_cutoff_def on_top_def)
qed

subsection \<open>The sphere points\<close>

lemma generate_loop_eq:
  "generate_loop F n_points inc offset i sphere_points
     = (\<lambda>a. if 3 * i \<le> a \<and> a < 3 * n_points
             then spiral_coordinate F inc offset (a div 3) (a mod 3) else sphere_points a)"
proof (induction F n_points inc offset i sphere_points rule: generate_loop.induct)
  case (1 F n_points inc offset i sphere_points)
  show ?case
  proof (cases "i < n_points")
    case False
    then show ?thesis by (subst generate_loop.simps) (auto simp: fun_eq_iff)
  next
    case True
    let ?y = "fl F (real i) * offset - fl F 1 + (offset / fl F 2)"
    let ?r = "sqrt_f F (fl F 1 - ?y * ?y)"
    let ?phi = "fl F (real i) * inc"
    let ?sp = "sphere_points(3 * i := cos_f F ?phi * ?r, 3 * i + 1 := ?y,
                 3 * i + 2 := sin_f F ?phi * ?r)"
    have m: "(3 * i) mod 3 = 0" "(3 * i + 1) mod 3 = 1" "(3 * i + 2) mod 3 = 2"
      "(3 * i) div 3 = i" "(3 * i + 1) div 3 = i" "(3 * i + 2) div 3 = i"
      by presburger+
    have "generate_loop F n_points inc offset i sphere_points
        = generate_loop F n_points inc offset (i + 1) ?sp"
      using True by (subst generate_loop.simps) (simp add: Let_def)
    also have "\<dots> = (\<lambda>a. if 3 * (i + 1) \<le> a \<and> a < 3 * n_points
             then spiral_coordinate F inc offset (a div 3) (a mod 3) else ?sp a)"
      by (rule 1 [OF True refl refl refl])
    also have "\<dots> = (\<lambda>a. if 3 * i \<le> a \<and> a < 3 * n_points
             then spiral_coordinate F inc offset (a div 3) (a mod 3) else sphere_points a)"
    proof (rule ext)
      fix a :: nat
      have "a = 3 * i \<or> a = 3 * i + 1 \<or> a = 3 * i + 2 \<or> a < 3 * i \<or> 3 * (i + 1) \<le> a"
        by arith
      then consider "a = 3 * i" | "a = 3 * i + 1" | "a = 3 * i + 2" | "a < 3 * i" | "3 * (i + 1) \<le> a"
        by blast
      then show "(if 3 * (i + 1) \<le> a \<and> a < 3 * n_points
             then spiral_coordinate F inc offset (a div 3) (a mod 3) else ?sp a)
          = (if 3 * i \<le> a \<and> a < 3 * n_points
             then spiral_coordinate F inc offset (a div 3) (a mod 3) else sphere_points a)"
      proof cases
        case 1 then show ?thesis using True m by (simp add: spiral_coordinate_def Let_def)
      next
        case 2 then show ?thesis using True m by (simp add: spiral_coordinate_def Let_def)
      next
        case 3 then show ?thesis using True m by (simp add: spiral_coordinate_def Let_def)
      next
        case 4 then show ?thesis by simp
      next
        case 5 then show ?thesis by simp
      qed
    qed
    finally show ?thesis .
  qed
qed





subsection \<open>What a run of asa\_frame depends on\<close>

lemma c_rem_index: "0 < n \<Longrightarrow> nat (c_rem k (int n)) < n"
proof (cases "0 \<le> k")
  case True
  assume "0 < n"
  then have "c_rem k (int n) = k mod int n" using True by (intro c_rem_mod) simp_all
  moreover have "k mod int n < int n" "0 \<le> k mod int n" using \<open>0 < n\<close> by simp_all
  ultimately show ?thesis by linarith
next
  case False
  assume n: "0 < n"
  from False have "c_rem k (int n) = k + int n * (\<bar>k\<bar> div int n)"
    using n by (simp add: c_rem_def sgn_if)
  also have "\<dots> = - (\<bar>k\<bar> - int n * (\<bar>k\<bar> div int n))" using False by simp
  also have "\<dots> = - (\<bar>k\<bar> mod int n)" by (simp add: minus_mult_div_eq_mod)
  finally have "c_rem k (int n) \<le> 0" using n by simp
  then show ?thesis using n by simp
qed

lemma r_at_cong:
  "\<forall>a. a < 3 * n_atoms \<longrightarrow> frame a = frame' a \<Longrightarrow> i < n_atoms \<Longrightarrow> r_at frame i = r_at frame' i"
  by (simp add: r_at_def)

lemma r2_atoms_cong:
  "\<forall>a. a < 3 * n_atoms \<longrightarrow> frame a = frame' a \<Longrightarrow> i < n_atoms \<Longrightarrow> j < n_atoms \<Longrightarrow>
   r2_atoms frame i j = r2_atoms frame' i j"
  by (simp add: r2_atoms_def r_at_cong [of n_atoms frame frame'])

lemma blocked_by_cong:
  assumes "\<forall>a. a < 3 * n_atoms \<longrightarrow> frame a = frame' a"
    and "nb p = nb' p" and "nb p < n_atoms"
  shows "blocked_by frame atom_radii nb r_j p = blocked_by frame' atom_radii nb' r_j p"
  using assms by (simp add: blocked_by_def r_at_cong [of n_atoms frame frame'])

lemma scan_neighbors_cong:
  assumes f: "\<forall>a. a < 3 * n_atoms \<longrightarrow> frame a = frame' a"
    and nb: "\<forall>p. p < n \<longrightarrow> nb p = nb' p \<and> nb p < n_atoms"
  shows "scan_neighbors frame atom_radii nb n r_j k bound
           = scan_neighbors frame' atom_radii nb' n r_j k bound"
  using f nb
proof (induction frame atom_radii nb n r_j k bound rule: scan_neighbors.induct)
  case (1 frame atom_radii nb n r_j k bound)
  show ?case
  proof (cases "k < bound")
    case False
    then show ?thesis by (simp add: scan_neighbors_past)
  next
    case True
    show ?thesis
    proof (cases "n = 0")
      case z: True
      with True show ?thesis
        by (subst scan_neighbors.simps, subst (2) scan_neighbors.simps) simp
    next
      case z: False
      let ?p = "nat (c_rem k (int n))"
      have "?p < n" using z by (intro c_rem_index) simp
      with 1(3) have e: "nb ?p = nb' ?p" "nb ?p < n_atoms" by blast+
      have b: "blocked_by frame atom_radii nb r_j ?p = blocked_by frame' atom_radii nb' r_j ?p"
        by (rule blocked_by_cong [where nb = nb and nb' = nb' and p = "?p", OF 1(2) e])
      show ?thesis
      proof (cases "blocked_by frame atom_radii nb r_j ?p")
        case bl: True
        with b True z show ?thesis
          by (subst scan_neighbors.simps, subst (2) scan_neighbors.simps) (simp add: Let_def)
      next
        case bl: False
        from 1(1) [OF True z refl bl 1(2) 1(3)] b bl True z show ?thesis
          by (subst scan_neighbors.simps, subst (2) scan_neighbors.simps) (simp add: Let_def)
      qed
    qed
  qed
qed

lemma classify_point_cong:
  assumes "\<forall>a. a < 3 * n_atoms \<longrightarrow> frame a = frame' a"
    and "\<forall>p. p < n \<longrightarrow> nb p = nb' p \<and> nb p < n_atoms"
  shows "classify_point frame atom_radii nb n r_j kc = classify_point frame' atom_radii nb' n r_j kc"
  unfolding classify_point_def scan_neighbors_cong [OF assms] ..

lemma point_at_cong:
  "\<forall>a. a < 3 * n_sphere_points \<longrightarrow> cs a = cs' a \<Longrightarrow> j < n_sphere_points \<Longrightarrow>
   point_at cs j = point_at cs' j"
  by (simp add: point_at_def)

lemma deposit_pointwise:
  "g a = g' a \<Longrightarrow> deposit F counts grid_spacing cst r r_j g a = deposit F counts grid_spacing cst r r_j g' a"
  by (cases "a = point_cell F counts grid_spacing r_j") (simp_all add: deposit_cell)

lemma points_loop_cong:
  assumes f: "\<forall>a. a < 3 * n_atoms \<longrightarrow> frame a = frame' a"
    and nb: "\<forall>p. p < n \<longrightarrow> nb p = nb' p \<and> nb p < n_atoms"
    and cs: "\<forall>j. j < n_sphere_points \<longrightarrow> point_at cs j = point_at cs' j"
  shows "fst s = fst s' \<Longrightarrow> snd s a = snd s' a \<Longrightarrow>
     map_sum id (\<lambda>t. (fst t, snd t a))
       (points_loop F frame atom_radii nb n cs n_sphere_points counts grid_spacing cst r j s)
   = map_sum id (\<lambda>t. (fst t, snd t a))
       (points_loop F frame' atom_radii nb' n cs' n_sphere_points counts grid_spacing cst r j s')"
  using f nb cs
proof (induction F frame atom_radii nb n cs n_sphere_points counts grid_spacing cst r j s
    arbitrary: s' rule: points_loop.induct)
  case (1 F frame atom_radii nb n cs n_sphere_points counts grid_spacing cst r j s)
  obtain kc g where s: "s = (kc, g)" by (cases s)
  obtain g' where s': "s' = (kc, g')" using 1(2) s by (cases s') simp
  have ga: "g a = g' a" using 1(3) s s' by simp
  show ?case
  proof (cases "j < n_sphere_points")
    case False
    with 1(2,3) show ?thesis by (simp add: points_loop_done)
  next
    case True
    have p: "point_at cs j = point_at cs' j" using 1(6) True by blast
    have c: "classify_point frame atom_radii nb n (point_at cs j) kc
        = classify_point frame' atom_radii nb' n (point_at cs' j) kc"
      unfolding p by (rule classify_point_cong [OF 1(4) 1(5)])
    show ?thesis
    proof (cases "classify_point frame atom_radii nb n (point_at cs j) kc")
      case (Inl e)
      from points_loop_error [OF True Inl] points_loop_error [OF True Inl [unfolded c]]
      show ?thesis unfolding s s' by simp
    next
      case (Inr v)
      obtain acc k' where v: "v = (acc, k')" by (cases v)
      note cl = Inr [unfolded v]
      let ?g1 = "if acc then deposit F counts grid_spacing cst r (point_at cs j) g else g"
      let ?g2 = "if acc then deposit F counts grid_spacing cst r (point_at cs' j) g' else g'"
      have d: "?g1 a = ?g2 a" unfolding p using ga deposit_pointwise [where g = g and g' = g' and a = a, OF ga] by simp
      have e1: "points_loop F frame atom_radii nb n cs n_sphere_points counts grid_spacing cst r j (kc, g)
          = points_loop F frame atom_radii nb n cs n_sphere_points counts grid_spacing cst r (j + 1)
              (k', ?g1)"
        by (rule points_loop_step [OF True cl])
      have e2: "points_loop F frame' atom_radii nb' n cs' n_sphere_points counts grid_spacing cst r j (kc, g')
          = points_loop F frame' atom_radii nb' n cs' n_sphere_points counts grid_spacing cst r (j + 1)
              (k', ?g2)"
        by (rule points_loop_step [OF True cl [unfolded c]])
      show ?thesis
        unfolding s s' e1 e2
        by (rule 1(1) [OF True s [symmetric] refl cl refl _ _ 1(4) 1(5) 1(6)]) (simp_all add: d)
    qed
  qed
qed

lemma within_cutoff_cong:
  "\<forall>a. a < 3 * n_atoms \<longrightarrow> frame a = frame' a \<Longrightarrow> i < n_atoms \<Longrightarrow> j < n_atoms \<Longrightarrow>
   within_cutoff frame atom_radii i j = within_cutoff frame' atom_radii i j"
  by (simp add: within_cutoff_def r2_atoms_cong [of n_atoms frame frame'])

lemma on_top_cong:
  "\<forall>a. a < 3 * n_atoms \<longrightarrow> frame a = frame' a \<Longrightarrow> i < n_atoms \<Longrightarrow> j < n_atoms \<Longrightarrow>
   on_top F frame i j = on_top F frame' i j"
  by (simp add: on_top_def r2_atoms_cong [of n_atoms frame frame'])

lemma centered_point_cong:
  assumes "\<forall>a. a < 3 * n_atoms \<longrightarrow> frame a = frame' a" and "i < n_atoms"
    and "\<forall>a. a < 3 * n_sphere_points \<longrightarrow> sp a = sp' a" and "j < n_sphere_points"
  shows "centered_point frame r i sp j = centered_point frame' r i sp' j"
  using assms by (simp add: centered_point_def)

lemma neighbor_loop_cong:
  assumes f: "\<forall>a. a < 3 * n_atoms \<longrightarrow> frame a = frame' a"
    and i: "i < n_atoms"
    and r: "neighbor_loop F frame n_atoms atom_radii i 0 (nb, 0) = Inr (nb1, n)"
  shows "\<exists>nb2. neighbor_loop F frame' n_atoms atom_radii i 0 (nb', 0) = Inr (nb2, n)
           \<and> (\<forall>p. p < n \<longrightarrow> nb1 p = nb2 p \<and> nb1 p < n_atoms)"
proof -
  let ?L = "filter (within_cutoff frame atom_radii i) [0..<n_atoms]"
  have L: "filter (within_cutoff frame' atom_radii i) [0..<n_atoms] = ?L"
    by (rule filter_cong [OF refl]) (simp add: within_cutoff_cong [OF f i])
  note a = neighbor_loop_Inr [OF r]
  have n: "n = length ?L" using a [THEN conjunct2, THEN conjunct1] by simp
  have m: "map nb1 [0..<n] = ?L" using a [THEN conjunct2, THEN conjunct2, THEN conjunct1] by simp
  have nt: "\<not> (\<exists>j. j < n_atoms \<and> on_top F frame' i j)"
    using a [THEN conjunct1] on_top_cong [OF f i] by simp
  obtain s2 where r2: "neighbor_loop F frame' n_atoms atom_radii i 0 (nb', 0) = Inr s2"
    using nt neighbor_loop_error_iff [of F frame' n_atoms atom_radii i "(nb', 0)"]
    by (cases "neighbor_loop F frame' n_atoms atom_radii i 0 (nb', 0)") auto
  obtain nb2 n2 where s2: "s2 = (nb2, n2)" by (cases s2)
  note b = neighbor_loop_Inr [OF r2 [unfolded s2]]
  have n2: "n2 = n" using b [THEN conjunct2, THEN conjunct1] L n by simp
  have m2: "map nb2 [0..<n] = ?L"
    using b [THEN conjunct2, THEN conjunct2, THEN conjunct1] unfolding L n2 by simp
  have "nb1 p = nb2 p \<and> nb1 p < n_atoms" if p: "p < n" for p
  proof -
    have "nb1 p = map nb1 [0..<n] ! p" using p by simp
    then have 1: "nb1 p = ?L ! p" unfolding m .
    have "nb2 p = map nb2 [0..<n] ! p" using p by simp
    then have 2: "nb2 p = ?L ! p" unfolding m2 .
    have "?L ! p \<in> set ?L" using p n by (intro nth_mem) simp
    then have "?L ! p < n_atoms" by simp
    with 1 2 show ?thesis by simp
  qed
  with r2 s2 n2 show ?thesis by blast
qed

lemma atom_step_cell:
  assumes "amask i \<noteq> 0"
    and "neighbor_loop F frame n_atoms atom_radii i 0 (nb, 0) = Inr (nb1, n)"
  shows "map_sum id (\<lambda>t. snd (snd t) a)
       (atom_step F frame n_atoms atom_radii sphere_points n_sphere_points amask counts grid_spacing
          cst i (nb, cs, g))
     = map_sum id snd (map_sum id (\<lambda>t. (fst t, snd t a))
         (points_loop F frame atom_radii nb1 n
            (center_loop frame (atom_radii i) i sphere_points n_sphere_points 0 cs)
            n_sphere_points counts grid_spacing cst (atom_radii i) 0 (0, g)))"
  using assms by (simp add: atom_step_def Let_def split: sum.splits prod.splits)

lemma atom_step_cong:
  assumes f: "\<forall>a. a < 3 * n_atoms \<longrightarrow> frame a = frame' a"
    and sp: "\<forall>a. a < 3 * n_sphere_points \<longrightarrow> sphere_points a = sphere_points' a"
    and i: "i < n_atoms"
    and g: "snd (snd s) a = snd (snd s') a"
  shows "map_sum id (\<lambda>t. snd (snd t) a)
       (atom_step F frame n_atoms atom_radii sphere_points n_sphere_points amask counts grid_spacing
          cst i s)
     = map_sum id (\<lambda>t. snd (snd t) a)
       (atom_step F frame' n_atoms atom_radii sphere_points' n_sphere_points amask counts
          grid_spacing cst i s')"
proof -
  obtain nb cs g1 where s: "s = (nb, cs, g1)" by (cases s)
  obtain nb' cs' g2 where s': "s' = (nb', cs', g2)" by (cases s')
  have ga: "g1 a = g2 a" using g s s' by simp
  show ?thesis
  proof (cases "amask i = 0")
    case True
    then show ?thesis using g by (simp add: atom_step_def s s')
  next
    case False
    have ot: "(\<exists>j. j < n_atoms \<and> on_top F frame i j) = (\<exists>j. j < n_atoms \<and> on_top F frame' i j)"
      using on_top_cong [OF f i] by blast
    show ?thesis
    proof (cases "neighbor_loop F frame n_atoms atom_radii i 0 (nb, 0)")
      case (Inl e)
      then have e: "e = AtomsOnTop \<and> (\<exists>j. j < n_atoms \<and> on_top F frame i j)"
        by (simp add: neighbor_loop_error_iff)
      then have "neighbor_loop F frame' n_atoms atom_radii i 0 (nb', 0) = Inl e"
        unfolding ot by (simp add: neighbor_loop_error_iff)
      with Inl False show ?thesis by (simp add: atom_step_def s s' Let_def)
    next
      case (Inr v)
      obtain nb1 n where v: "v = (nb1, n)" by (cases v)
      note r1 = Inr [unfolded v]
      from neighbor_loop_cong [OF f i r1, of nb'] obtain nb2 where
        r2: "neighbor_loop F frame' n_atoms atom_radii i 0 (nb', 0) = Inr (nb2, n)"
        and nbs: "\<forall>p. p < n \<longrightarrow> nb1 p = nb2 p \<and> nb1 p < n_atoms"
        by blast
      let ?c1 = "center_loop frame (atom_radii i) i sphere_points n_sphere_points 0 cs"
      let ?c2 = "center_loop frame' (atom_radii i) i sphere_points' n_sphere_points 0 cs'"
      have pts: "\<forall>j. j < n_sphere_points \<longrightarrow> point_at ?c1 j = point_at ?c2 j"
        by (simp add: point_at_center_loop centered_point_cong [OF f i sp])
      have "map_sum id (\<lambda>t. (fst t, snd t a))
            (points_loop F frame atom_radii nb1 n ?c1 n_sphere_points counts grid_spacing cst
               (atom_radii i) 0 (0, g1))
          = map_sum id (\<lambda>t. (fst t, snd t a))
            (points_loop F frame' atom_radii nb2 n ?c2 n_sphere_points counts grid_spacing cst
               (atom_radii i) 0 (0, g2))"
        by (rule points_loop_cong [OF f nbs pts]) (simp_all add: ga)
      then show ?thesis
        unfolding s s' atom_step_cell [where amask = amask and i = i, OF False r1]
          atom_step_cell [where amask = amask and i = i, OF False r2] by simp
    qed
  qed
qed

lemma atoms_loop_done:
  "\<not> i < n_atoms \<Longrightarrow>
   atoms_loop F frame n_atoms atom_radii sphere_points n_sphere_points amask counts grid_spacing
     cst i s = Inr s"
  by (subst atoms_loop.simps) simp

lemma atoms_loop_stop:
  "i < n_atoms \<Longrightarrow>
   atom_step F frame n_atoms atom_radii sphere_points n_sphere_points amask counts grid_spacing
     cst i s = Inl e \<Longrightarrow>
   atoms_loop F frame n_atoms atom_radii sphere_points n_sphere_points amask counts grid_spacing
     cst i s = Inl e"
  by (subst atoms_loop.simps) simp

lemma atoms_loop_step:
  "i < n_atoms \<Longrightarrow>
   atom_step F frame n_atoms atom_radii sphere_points n_sphere_points amask counts grid_spacing
     cst i s = Inr s1 \<Longrightarrow>
   atoms_loop F frame n_atoms atom_radii sphere_points n_sphere_points amask counts grid_spacing
     cst i s
   = atoms_loop F frame n_atoms atom_radii sphere_points n_sphere_points amask counts grid_spacing
     cst (i + 1) s1"
  by (subst atoms_loop.simps) simp

lemma atoms_loop_cong:
  assumes f: "\<forall>a. a < 3 * n_atoms \<longrightarrow> frame a = frame' a"
    and sp: "\<forall>a. a < 3 * n_sphere_points \<longrightarrow> sphere_points a = sphere_points' a"
  shows "snd (snd s) a = snd (snd s') a \<Longrightarrow>
     map_sum id (\<lambda>t. snd (snd t) a)
       (atoms_loop F frame n_atoms atom_radii sphere_points n_sphere_points amask counts
          grid_spacing cst i s)
     = map_sum id (\<lambda>t. snd (snd t) a)
       (atoms_loop F frame' n_atoms atom_radii sphere_points' n_sphere_points amask counts
          grid_spacing cst i s')"
  using f sp
proof (induction F frame n_atoms atom_radii sphere_points n_sphere_points amask counts
    grid_spacing cst i s arbitrary: s' rule: atoms_loop.induct)
  case (1 F frame n_atoms atom_radii sphere_points n_sphere_points amask counts grid_spacing cst i s)
  show ?case
  proof (cases "i < n_atoms")
    case False
    then show ?thesis using 1(2) by (simp add: atoms_loop_done)
  next
    case True
    note e = atom_step_cong [OF 1(3) 1(4) True 1(2), where F = F and atom_radii = atom_radii
        and amask = amask and counts = counts and grid_spacing = grid_spacing and cst = cst]
    show ?thesis
    proof (cases "atom_step F frame n_atoms atom_radii sphere_points n_sphere_points amask counts
        grid_spacing cst i s")
      case (Inl err)
      with e have "atom_step F frame' n_atoms atom_radii sphere_points' n_sphere_points amask counts
          grid_spacing cst i s' = Inl err"
        by (cases "atom_step F frame' n_atoms atom_radii sphere_points' n_sphere_points amask counts
          grid_spacing cst i s'") simp_all
      with Inl True show ?thesis by (simp add: atoms_loop_stop)
    next
      case (Inr s1)
      with e obtain s1' where
        r: "atom_step F frame' n_atoms atom_radii sphere_points' n_sphere_points amask counts
          grid_spacing cst i s' = Inr s1'"
        and g: "snd (snd s1) a = snd (snd s1') a"
        by (cases "atom_step F frame' n_atoms atom_radii sphere_points' n_sphere_points amask counts
          grid_spacing cst i s'") simp_all
      show ?thesis
        unfolding atoms_loop_step [OF True Inr] atoms_loop_step [OF True r]
        by (rule 1(1) [OF True Inr g 1(3) 1(4)])
    qed
  qed
qed

lemma asa_frame_cong:
  assumes f: "\<forall>a. a < 3 * n_atoms \<longrightarrow> frame a = frame' a"
    and sp: "\<forall>a. a < 3 * n_sphere_points \<longrightarrow> sphere_points a = sphere_points' a"
    and g: "(0 \<le> a \<and> a < total_grid_points counts) \<or> g a = g' a"
  shows "map_sum id (\<lambda>t. snd (snd t) a)
       (asa_frame F frame n_atoms atom_radii sphere_points n_sphere_points nb cs amask g counts
          grid_spacing)
     = map_sum id (\<lambda>t. snd (snd t) a)
       (asa_frame F frame' n_atoms atom_radii sphere_points' n_sphere_points nb' cs' amask g'
          counts grid_spacing)"
  unfolding asa_frame_def Let_def
  by (rule atoms_loop_cong [OF f sp]) (use g in \<open>auto simp: zero_grid_eq\<close>)

subsection \<open>The frames\<close>

lemma asa_frame_outside:
  assumes p: "0 < counts 0" "0 < counts 1" "0 < counts 2"
    and m: "counts 0 * counts 1 * counts 2 \<le> INT_MAX"
    and a: "a < 0 \<or> counts 0 * counts 1 * counts 2 \<le> a"
    and r: "asa_frame F frame n_atoms atom_radii sphere_points n_sphere_points nb cs amask g counts
              grid_spacing = Inr s'"
  shows "snd (snd s') a = g a"
proof -
  from r have "atoms_loop F frame n_atoms atom_radii sphere_points n_sphere_points amask counts
      grid_spacing (area_constant F n_sphere_points) 0
      (nb, cs, zero_grid 0 (total_grid_points counts) g) = Inr s'"
    by (simp add: asa_frame_def Let_def)
  from atoms_loop_outside [OF m a this]
  have "snd (snd s') a = zero_grid 0 (total_grid_points counts) g a" by simp
  also have "\<dots> = g a"
    using a by (auto simp: zero_grid_eq total_grid_points_exact [OF p m])
  finally show ?thesis .
qed

lemma frames_fit:
  assumes p: "0 < counts 0" "0 < counts 1" "0 < counts 2"
    and og: "int n_frames * (counts 0 * counts 1 * counts 2) \<le> INT_MAX"
    and k: "k < n_frames"
  shows "counts 0 * counts 1 * counts 2 \<le> INT_MAX"
    and "total_grid_points counts = counts 0 * counts 1 * counts 2"
    and "grid_offset counts k = int k * (counts 0 * counts 1 * counts 2)"
proof -
  let ?P = "counts 0 * counts 1 * counts 2"
  have P: "0 < ?P" using p by simp
  have "1 * ?P \<le> int n_frames * ?P" using k P by (intro mult_right_mono) simp_all
  with og show m: "?P \<le> INT_MAX" by simp
  show t: "total_grid_points counts = ?P" by (rule total_grid_points_exact [OF p m])
  have "int k * ?P \<le> int n_frames * ?P" using k P by (intro mult_right_mono) simp_all
  with og have "int k * ?P \<le> INT_MAX" by simp
  moreover have "0 \<le> int k * ?P" using P by simp
  ultimately show "grid_offset counts k = int k * ?P"
    unfolding grid_offset_def t by (intro int32_id) simp_all
qed

lemma frame_at_exact:
  assumes ox: "int n_frames * int n_atoms * 3 \<le> INT_MAX"
    and k: "k < n_frames"
  shows "frame_at xyzlist n_atoms k = (\<lambda>a. xyzlist (int k * int n_atoms * 3 + int a))"
proof -
  define x where "x = int k * int n_atoms"
  have "x \<le> int n_frames * int n_atoms"
    unfolding x_def using k by (intro mult_right_mono) simp_all
  then have b: "x * 3 \<le> INT_MAX" using ox by simp
  have nn: "0 \<le> x" unfolding x_def by simp
  have z: "- 2147483648 \<le> x" and z3: "- 2147483648 \<le> x * 3" and a: "x \<le> INT_MAX"
    using nn b by arith+
  show ?thesis
    unfolding frame_at_def x_def [symmetric] int32_id [OF z a] int32_id [OF z3 b] ..
qed

lemma frames_loop_done:
  "\<not> i < n_frames \<Longrightarrow>
   frames_loop F n_frames n_atoms xyzlist atom_radii sphere_points n_sphere_points amask counts
     grid_spacing i s = Inr s"
  by (subst frames_loop.simps) simp

lemma frames_loop_step:
  assumes "i < n_frames"
    and "frames_loop F n_frames n_atoms xyzlist atom_radii sphere_points n_sphere_points amask
           counts grid_spacing i (wb1, wb2, out) = Inr s'"
  shows "\<exists>wb1' wb2' g1.
      asa_frame F (frame_at xyzlist n_atoms i) n_atoms atom_radii sphere_points n_sphere_points
        wb1 wb2 amask (\<lambda>a. out (grid_offset counts i + a)) counts grid_spacing
        = Inr (wb1', wb2', g1)
    \<and> frames_loop F n_frames n_atoms xyzlist atom_radii sphere_points n_sphere_points amask
        counts grid_spacing (i + 1) (wb1', wb2', \<lambda>a. g1 (a - grid_offset counts i)) = Inr s'"
  using assms by (subst (asm) frames_loop.simps) (auto split: sum.splits)

lemma frames_loop_slices:
  assumes p: "0 < counts 0" "0 < counts 1" "0 < counts 2"
    and og: "int n_frames * (counts 0 * counts 1 * counts 2) \<le> INT_MAX"
  shows "frames_loop F n_frames n_atoms xyzlist atom_radii sphere_points n_sphere_points amask
           counts grid_spacing i s = Inr s' \<Longrightarrow>
     (\<forall>k b. i \<le> k \<and> k < n_frames \<and> 0 \<le> b \<and> b < counts 0 * counts 1 * counts 2 \<longrightarrow>
        map_sum id (\<lambda>t. snd (snd t) b)
          (asa_frame F (frame_at xyzlist n_atoms k) n_atoms atom_radii sphere_points
             n_sphere_points nb0 cs0 amask g0 counts grid_spacing)
        = Inr (snd (snd s') (int k * (counts 0 * counts 1 * counts 2) + b)))
     \<and> (\<forall>a. a < int i * (counts 0 * counts 1 * counts 2)
              \<or> int n_frames * (counts 0 * counts 1 * counts 2) \<le> a \<longrightarrow>
            snd (snd s') a = snd (snd s) a)"
  using p og
proof (induction F n_frames n_atoms xyzlist atom_radii sphere_points n_sphere_points amask counts
    grid_spacing i s rule: frames_loop.induct)
  case (1 F n_frames n_atoms xyzlist atom_radii sphere_points n_sphere_points amask counts
      grid_spacing i s)
  let ?P = "counts 0 * counts 1 * counts 2"
  note p = 1(3) 1(4) 1(5) and og = 1(6)
  show ?case
  proof (cases "i < n_frames")
    case False
    with 1(2) have "s' = s" by (simp add: frames_loop_done)
    with False show ?thesis by auto
  next
    case True
    obtain wb1 wb2 out where s: "s = (wb1, wb2, out)" by (cases s)
    note ft = frames_fit [OF p og True]
    let ?off = "int i * ?P"
    from frames_loop_step [OF True 1(2) [unfolded s]] obtain wb1' wb2' g1 where
      run: "asa_frame F (frame_at xyzlist n_atoms i) n_atoms atom_radii sphere_points
          n_sphere_points wb1 wb2 amask (\<lambda>a. out (?off + a)) counts grid_spacing
        = Inr (wb1', wb2', g1)"
      and rec: "frames_loop F n_frames n_atoms xyzlist atom_radii sphere_points n_sphere_points
          amask counts grid_spacing (i + 1) (wb1', wb2', \<lambda>a. g1 (a - ?off)) = Inr s'"
      unfolding ft(3) by blast
    note ih = 1(1) [OF True s [symmetric] refl run [folded ft(3)] refl refl rec [folded ft(3)] p og,
        unfolded ft(3)]
    note ih1 = ih [THEN conjunct1, rule_format] and ih2 = ih [THEN conjunct2, rule_format]
    have P: "0 < ?P" using p by simp
    have next_off: "int (i + 1) * ?P = ?off + ?P" by (simp add: algebra_simps)
    have inside: "snd (snd s') (?off + b) = g1 b" if b: "0 \<le> b" "b < ?P" for b
    proof -
      have "?off + b < int (i + 1) * ?P" unfolding next_off using b by simp
      then have "?off + b < int (i + 1) * ?P \<or> int n_frames * ?P \<le> ?off + b" by (rule disjI1)
      from ih2 [OF this] show ?thesis by simp
    qed
    have here: "map_sum id (\<lambda>t. snd (snd t) b)
          (asa_frame F (frame_at xyzlist n_atoms i) n_atoms atom_radii sphere_points
             n_sphere_points nb0 cs0 amask g0 counts grid_spacing)
        = Inr (snd (snd s') (?off + b))" if b: "0 \<le> b" "b < ?P" for b
    proof -
      have "map_sum id (\<lambda>t. snd (snd t) b)
          (asa_frame F (frame_at xyzlist n_atoms i) n_atoms atom_radii sphere_points
             n_sphere_points nb0 cs0 amask g0 counts grid_spacing)
        = map_sum id (\<lambda>t. snd (snd t) b)
          (asa_frame F (frame_at xyzlist n_atoms i) n_atoms atom_radii sphere_points
             n_sphere_points wb1 wb2 amask (\<lambda>a. out (?off + a)) counts grid_spacing)"
        by (rule asa_frame_cong) (use b ft(2) in simp_all)
      also have "\<dots> = Inr (g1 b)" unfolding run by simp
      finally show ?thesis unfolding inside [OF b] .
    qed
    have before: "snd (snd s') a = snd (snd s) a"
      if a: "a < ?off \<or> int n_frames * ?P \<le> a" for a
    proof -
      have "?off + ?P \<le> int n_frames * ?P"
        unfolding next_off [symmetric] using True P by (intro mult_right_mono) simp_all
      with a P have a': "a < int (i + 1) * ?P \<or> int n_frames * ?P \<le> a"
        and o: "a - ?off < 0 \<or> ?P \<le> a - ?off"
        unfolding next_off by auto
      have "snd (snd s') a = snd (snd (wb1', wb2', \<lambda>a. g1 (a - ?off))) a"
        by (rule ih2 [OF a'])
      also have "\<dots> = g1 (a - ?off)" by simp
      also have "\<dots> = out (?off + (a - ?off))"
        using asa_frame_outside [OF p ft(1) o run] by simp
      finally show ?thesis unfolding s by simp
    qed
    show ?thesis
    proof (intro conjI allI impI)
      fix k b
      assume h: "i \<le> k \<and> k < n_frames \<and> 0 \<le> b \<and> b < ?P"
      show "map_sum id (\<lambda>t. snd (snd t) b)
          (asa_frame F (frame_at xyzlist n_atoms k) n_atoms atom_radii sphere_points
             n_sphere_points nb0 cs0 amask g0 counts grid_spacing)
        = Inr (snd (snd s') (int k * ?P + b))"
      proof (cases "k = i")
        case True
        with h here show ?thesis by simp
      next
        case False
        with h have "i + 1 \<le> k \<and> k < n_frames \<and> 0 \<le> b \<and> b < ?P" by simp
        then show ?thesis by (rule ih1)
      qed
    next
      fix a
      assume "a < ?off \<or> int n_frames * ?P \<le> a"
      then show "snd (snd s') a = snd (snd s) a" by (rule before)
    qed
  qed
qed

lemma sasa_Inr:
  "sasa F n_frames n_atoms xyzlist atom_radii n_sphere_points amask out counts grid_spacing
     sphere_points wb1 wb2 = Inr out' \<longleftrightarrow>
   (\<exists>wb1' wb2'. frames_loop F n_frames n_atoms xyzlist atom_radii
      (generate_sphere_points F sphere_points n_sphere_points) n_sphere_points amask counts
      grid_spacing 0 (wb1, wb2, out) = Inr (wb1', wb2', out'))"
  by (auto simp: sasa_def Let_def split: sum.splits)

lemma generate_sphere_points_cong:
  "a < 3 * n_points \<Longrightarrow>
   generate_sphere_points F sphere_points n_points a
     = generate_sphere_points F sphere_points' n_points a"
  by (simp add: generate_sphere_points_def Let_def generate_loop_eq)

lemma frame_grid_cell:
  "map_sum id (\<lambda>G. G b) (frame_grid F frame n_atoms atom_radii n_sphere_points amask counts
       grid_spacing)
   = map_sum id (\<lambda>t. snd (snd t) b)
       (asa_frame F frame n_atoms atom_radii (generate_sphere_points F (\<lambda>a. 0) n_sphere_points)
          n_sphere_points (\<lambda>p. 0) (\<lambda>a. 0) amask (\<lambda>a. 0) counts grid_spacing)"
  by (simp add: frame_grid_def split: sum.splits)

lemma frame_grid_cong:
  assumes "\<forall>a. a < 3 * n_atoms \<longrightarrow> frame a = frame' a"
  shows "frame_grid F frame n_atoms atom_radii n_sphere_points amask counts grid_spacing
       = frame_grid F frame' n_atoms atom_radii n_sphere_points amask counts grid_spacing"
proof -
  let ?A = "frame_grid F frame n_atoms atom_radii n_sphere_points amask counts grid_spacing"
  let ?B = "frame_grid F frame' n_atoms atom_radii n_sphere_points amask counts grid_spacing"
  have e: "map_sum id (\<lambda>G. G b) ?A = map_sum id (\<lambda>G. G b) ?B" for b
    unfolding frame_grid_cell by (rule asa_frame_cong [OF assms]) simp_all
  show ?thesis
  proof (cases ?A)
    case (Inl err)
    with e [of 0] show ?thesis by (cases ?B) simp_all
  next
    case (Inr G)
    with e [of 0] obtain G' where B: "?B = Inr G'" by (cases ?B) simp_all
    have "G b = G' b" for b using e [of b] Inr B by simp
    then have "G = G'" by (rule ext)
    with Inr B show ?thesis by simp
  qed
qed

lemma degenerate_cong:
  assumes "\<forall>a. a < 3 * n_atoms \<longrightarrow> frame a = frame' a"
  shows "degenerate F frame n_atoms amask = degenerate F frame' n_atoms amask"
  unfolding degenerate_def using on_top_cong [OF assms] by blast

lemma sasa_slices:
  assumes p: "0 < counts 0" "0 < counts 1" "0 < counts 2"
    and og: "int n_frames * (counts 0 * counts 1 * counts 2) \<le> INT_MAX"
    and ox: "int n_frames * int n_atoms * 3 \<le> INT_MAX"
    and run: "sasa F n_frames n_atoms xyzlist atom_radii n_sphere_points amask out counts
                grid_spacing sphere_points wb1 wb2 = Inr out'"
  shows "k < n_frames \<Longrightarrow> 0 \<le> b \<Longrightarrow> b < counts 0 * counts 1 * counts 2 \<Longrightarrow>
         map_sum id (\<lambda>G. G b)
           (frame_grid F (\<lambda>a. xyzlist (int k * int n_atoms * 3 + int a)) n_atoms atom_radii
              n_sphere_points amask counts grid_spacing)
         = Inr (out' (int k * (counts 0 * counts 1 * counts 2) + b))"
    and "a < 0 \<or> int n_frames * (counts 0 * counts 1 * counts 2) \<le> a \<Longrightarrow> out' a = out a"
proof -
  let ?P = "counts 0 * counts 1 * counts 2"
  let ?sp = "generate_sphere_points F sphere_points n_sphere_points"
  from run obtain wb1' wb2' where
    l: "frames_loop F n_frames n_atoms xyzlist atom_radii ?sp n_sphere_points amask counts
          grid_spacing 0 (wb1, wb2, out) = Inr (wb1', wb2', out')"
    unfolding sasa_Inr by blast
  note sl = frames_loop_slices [OF p og l, where ?nb0.0 = "\<lambda>p. 0" and ?cs0.0 = "\<lambda>a. 0"
      and ?g0.0 = "\<lambda>a. 0"]
  show "out' a = out a" if "a < 0 \<or> int n_frames * ?P \<le> a"
    using sl [THEN conjunct2, rule_format, of a] that by simp
  show "map_sum id (\<lambda>G. G b)
           (frame_grid F (\<lambda>a. xyzlist (int k * int n_atoms * 3 + int a)) n_atoms atom_radii
              n_sphere_points amask counts grid_spacing)
         = Inr (out' (int k * ?P + b))" if k: "k < n_frames" and b: "0 \<le> b" "b < ?P"
  proof -
    have "map_sum id (\<lambda>G. G b)
           (frame_grid F (frame_at xyzlist n_atoms k) n_atoms atom_radii
              n_sphere_points amask counts grid_spacing)
        = map_sum id (\<lambda>t. snd (snd t) b)
           (asa_frame F (frame_at xyzlist n_atoms k) n_atoms atom_radii ?sp n_sphere_points
              (\<lambda>p. 0) (\<lambda>a. 0) amask (\<lambda>a. 0) counts grid_spacing)"
      unfolding frame_grid_cell
      by (rule asa_frame_cong) (simp_all add: generate_sphere_points_cong [of _ _ F "\<lambda>a. 0"])
    also have "\<dots> = Inr (snd (snd (wb1', wb2', out')) (int k * ?P + b))"
      by (rule sl [THEN conjunct1, rule_format]) (use k b in simp)
    finally show ?thesis unfolding frame_at_exact [OF ox k] by simp
  qed
qed

text \<open>
  C6. When the counts are positive and neither \<open>n_frames\<close> times the product of
  the counts nor \<open>n_frames * n_atoms * 3\<close> leaves the range of \<open>int\<close>, a run of
  \<open>sasa\<close> that returns leaves in the slice of frame \<open>k\<close> (the cells from
  \<open>k * countsX * countsY * countsZ\<close> on) the grid of frame \<open>k\<close> taken alone and
  computed from a grid of zeros: nothing of what \<open>out\<close> held, of the work buffers
  or of the other frames is in it. It leaves every cell outside the slices of
  the frames as it was. The grid of a frame taken alone depends on the
  \<open>3 * n_atoms\<close> coordinates of the frame and the shared inputs only. So when
  the frames are rearranged (frame \<open>k\<close> of the second input is frame \<open>\<pi> k\<close> of
  the first, for a permutation \<open>\<pi>\<close> or any other map of the frame numbers into
  themselves), the run returns as well and slice \<open>k\<close> of its output is slice
  \<open>\<pi> k\<close> of the first output.
\<close>

theorem sasa_frames_independent:
  assumes p: "0 < counts 0" "0 < counts 1" "0 < counts 2"
    and og: "int n_frames * (counts 0 * counts 1 * counts 2) \<le> INT_MAX"
    and ox: "int n_frames * int n_atoms * 3 \<le> INT_MAX"
    and run: "sasa F n_frames n_atoms xyzlist atom_radii n_sphere_points atom_selection_mask out
                counts grid_spacing sphere_points wb1 wb2 = Inr out'"
  shows "(\<forall>k. k < n_frames \<longrightarrow>
           (\<exists>G. frame_grid F (\<lambda>a. xyzlist (int k * int n_atoms * 3 + int a)) n_atoms atom_radii
                   n_sphere_points atom_selection_mask counts grid_spacing = Inr G
              \<and> (\<forall>b. 0 \<le> b \<and> b < counts 0 * counts 1 * counts 2 \<longrightarrow>
                     out' (int k * (counts 0 * counts 1 * counts 2) + b) = G b)))
       \<and> (\<forall>a. a < 0 \<or> int n_frames * (counts 0 * counts 1 * counts 2) \<le> a \<longrightarrow> out' a = out a)
       \<and> (\<forall>frame frame'. (\<forall>a. a < 3 * n_atoms \<longrightarrow> frame a = frame' a) \<longrightarrow>
             frame_grid F frame n_atoms atom_radii n_sphere_points atom_selection_mask counts
               grid_spacing
             = frame_grid F frame' n_atoms atom_radii n_sphere_points atom_selection_mask counts
                 grid_spacing)
       \<and> (\<forall>\<pi> xyzlist2 out2 sphere_points2 wb12 wb22.
             (\<forall>k. k < n_frames \<longrightarrow> \<pi> k < n_frames
                \<and> (\<forall>a. a < 3 * n_atoms \<longrightarrow>
                      xyzlist2 (int k * int n_atoms * 3 + int a)
                        = xyzlist (int (\<pi> k) * int n_atoms * 3 + int a))) \<longrightarrow>
             (\<exists>out2'. sasa F n_frames n_atoms xyzlist2 atom_radii n_sphere_points
                         atom_selection_mask out2 counts grid_spacing sphere_points2 wb12 wb22
                       = Inr out2'
                \<and> (\<forall>k b. k < n_frames \<and> 0 \<le> b \<and> b < counts 0 * counts 1 * counts 2 \<longrightarrow>
                       out2' (int k * (counts 0 * counts 1 * counts 2) + b)
                         = out' (int (\<pi> k) * (counts 0 * counts 1 * counts 2) + b))))"
proof (intro conjI allI impI)
  let ?P = "counts 0 * counts 1 * counts 2"
  let ?fg = "\<lambda>frame. frame_grid F frame n_atoms atom_radii n_sphere_points atom_selection_mask
      counts grid_spacing"
  let ?fr = "\<lambda>x k. (\<lambda>a. x (int k * int n_atoms * 3 + int a))"
  note sl = sasa_slices [OF p og ox]
  have P: "0 < ?P" using p by simp
  {
    fix k assume k: "k < n_frames"
    from sl(1) [OF run k order_refl P]
    obtain G where G: "?fg (?fr xyzlist k) = Inr G" by (cases "?fg (?fr xyzlist k)") simp_all
    have "out' (int k * ?P + b) = G b" if "0 \<le> b \<and> b < ?P" for b
      using sl(1) [OF run k, of b] that unfolding G by simp
    with G show "\<exists>G. ?fg (?fr xyzlist k) = Inr G
        \<and> (\<forall>b. 0 \<le> b \<and> b < ?P \<longrightarrow> out' (int k * ?P + b) = G b)"
      by blast
  }
  {
    fix a assume "a < 0 \<or> int n_frames * ?P \<le> a"
    then show "out' a = out a" by (rule sl(2) [OF run])
  }
  {
    fix frame frame' :: "'a farray"
    assume "\<forall>a. a < 3 * n_atoms \<longrightarrow> frame a = frame' a"
    then show "?fg frame = ?fg frame'" by (rule frame_grid_cong)
  }
  {
    fix \<pi> :: "nat \<Rightarrow> nat" and xyzlist2 out2 sphere_points2 wb12 wb22
    assume h: "\<forall>k. k < n_frames \<longrightarrow> \<pi> k < n_frames
        \<and> (\<forall>a. a < 3 * n_atoms \<longrightarrow>
              xyzlist2 (int k * int n_atoms * 3 + int a)
                = xyzlist (int (\<pi> k) * int n_atoms * 3 + int a))"
    let ?run2 = "sasa F n_frames n_atoms xyzlist2 atom_radii n_sphere_points atom_selection_mask
        out2 counts grid_spacing sphere_points2 wb12 wb22"
    have fr: "\<forall>a. a < 3 * n_atoms \<longrightarrow> ?fr xyzlist2 k a = ?fr xyzlist (\<pi> k) a"
      if "k < n_frames" for k
      using h that by blast
    have pk: "\<pi> k < n_frames" if "k < n_frames" for k using h that by blast
    have nd: "\<not> degenerate F (frame_at xyzlist n_atoms k) n_atoms atom_selection_mask"
      if "k < n_frames" for k
    proof
      assume "degenerate F (frame_at xyzlist n_atoms k) n_atoms atom_selection_mask"
      with that have "sasa F n_frames n_atoms xyzlist atom_radii n_sphere_points
          atom_selection_mask out counts grid_spacing sphere_points wb1 wb2 = Inl AtomsOnTop"
        unfolding sasa_error_iff by blast
      with run show False by simp
    qed
    have ne: "?run2 \<noteq> Inl e" for e
    proof
      assume "?run2 = Inl e"
      then obtain k where k: "k < n_frames"
        and d: "degenerate F (frame_at xyzlist2 n_atoms k) n_atoms atom_selection_mask"
        unfolding sasa_error_iff by blast
      from d have "degenerate F (frame_at xyzlist n_atoms (\<pi> k)) n_atoms atom_selection_mask"
        unfolding frame_at_exact [OF ox k] frame_at_exact [OF ox pk [OF k]]
          degenerate_cong [OF fr [OF k]] .
      with nd [OF pk [OF k]] show False ..
    qed
    obtain out2' where run2: "?run2 = Inr out2'"
    proof (cases ?run2)
      case (Inl e)
      with ne [of e] show ?thesis ..
    next
      case (Inr g)
      then show ?thesis by (rule that)
    qed
    have "out2' (int k * ?P + b) = out' (int (\<pi> k) * ?P + b)"
      if kb: "k < n_frames \<and> 0 \<le> b \<and> b < ?P" for k b
    proof -
      from kb have k: "k < n_frames" and b: "0 \<le> b" "b < ?P" by simp_all
      have "Inr (out2' (int k * ?P + b)) = map_sum id (\<lambda>G. G b) (?fg (?fr xyzlist2 k))"
        by (rule sasa_slices(1) [OF p og ox run2 k b, symmetric])
      also have "\<dots> = map_sum id (\<lambda>G. G b) (?fg (?fr xyzlist (\<pi> k)))"
        unfolding frame_grid_cong [OF fr [OF k]] ..
      also have "\<dots> = Inr (out' (int (\<pi> k) * ?P + b))"
        by (rule sl(1) [OF run pk [OF k] b])
      finally show ?thesis by simp
    qed
    with run2 show "\<exists>out2'. ?run2 = Inr out2'
        \<and> (\<forall>k b. k < n_frames \<and> 0 \<le> b \<and> b < ?P \<longrightarrow>
               out2' (int k * ?P + b) = out' (int (\<pi> k) * ?P + b))"
      by blast
  }
qed

theorem sasa_frames_independent_witness:
  "int 2 * (2 * 2 * 2) \<le> INT_MAX \<and> int 2 * int 1 * 3 \<le> INT_MAX
   \<and> (\<exists>out' out2'.
        sasa exact 2 1 (\<lambda>a. [0, 0, 0, 1, 1, 1] ! nat a) (\<lambda>j. 1) 1 (\<lambda>i. 1) (\<lambda>a. 5)
          (\<lambda>i. 2) 1 (\<lambda>a. 0) (\<lambda>p. 0) (\<lambda>a. 0) = Inr out'
      \<and> sasa exact 2 1 (\<lambda>a. [1, 1, 1, 0, 0, 0] ! nat a) (\<lambda>j. 1) 1 (\<lambda>i. 1) (\<lambda>a. 7)
          (\<lambda>i. 2) 1 (\<lambda>a. 3) (\<lambda>p. 4) (\<lambda>a. 6) = Inr out2'
      \<and> out' (- 1) = 5 \<and> out' 16 = 5
      \<and> out2' 0 = out' 8 \<and> out2' 7 = out' 15 \<and> out2' 8 = out' 0 \<and> out2' 15 = out' 7)"
proof -
  let ?x = "\<lambda>a::int. [0, 0, 0, 1, 1, 1 :: real] ! nat a"
  let ?y = "\<lambda>a::int. [1, 1, 1, 0, 0, 0 :: real] ! nat a"
  let ?C = "\<lambda>i::nat. 2 :: int"
  let ?run = "sasa exact 2 1 ?x (\<lambda>j. 1) 1 (\<lambda>i. 1) (\<lambda>a. 5) ?C 1 (\<lambda>a. 0) (\<lambda>p. 0) (\<lambda>a. 0)"
  let ?run2 = "sasa exact 2 1 ?y (\<lambda>j. 1) 1 (\<lambda>i. 1) (\<lambda>a. 7) ?C 1 (\<lambda>a. 3) (\<lambda>p. 4) (\<lambda>a. 6)"
  have p: "0 < ?C 0" "0 < ?C 1" "0 < ?C 2" by simp_all
  have og: "int 2 * (?C 0 * ?C 1 * ?C 2) \<le> INT_MAX" by (simp add: INT_MAX_def)
  have ox: "int 2 * int 1 * 3 \<le> INT_MAX" by (simp add: INT_MAX_def)
  have "?run \<noteq> Inl e" for e
    by (simp add: sasa_error_iff degenerate_def on_top_def)
  then obtain out' where run: "?run = Inr out'" by (cases ?run) auto
  note t = sasa_frames_independent [OF p og ox run]
  have h: "1 - k < 2
      \<and> (\<forall>a. a < 3 * 1 \<longrightarrow> ?y (int k * int 1 * 3 + int a) = ?x (int (1 - k) * int 1 * 3 + int a))"
    if k: "k < 2" for k :: nat
  proof (intro allI impI conjI)
    fix a :: nat
    assume "a < 3 * 1"
    with k have "(k = 0 \<or> k = 1) \<and> (a = 0 \<or> a = 1 \<or> a = 2)" by arith
    then show "?y (int k * int 1 * 3 + int a) = ?x (int (1 - k) * int 1 * 3 + int a)"
      by auto
  qed simp
  from t [THEN conjunct2, THEN conjunct2, THEN conjunct2, rule_format,
      of "\<lambda>k. 1 - k" ?y "\<lambda>a. 7" "\<lambda>a. 3" "\<lambda>p. 4" "\<lambda>a. 6", OF h]
  obtain out2' where run2: "?run2 = Inr out2'"
    and q: "\<forall>k b. k < (2 :: nat) \<and> 0 \<le> b \<and> b < ?C 0 * ?C 1 * ?C 2 \<longrightarrow>
        out2' (int k * (?C 0 * ?C 1 * ?C 2) + b) = out' (int (1 - k) * (?C 0 * ?C 1 * ?C 2) + b)"
    by blast
  have o: "out' (- 1) = 5" "out' 16 = 5"
    using t [THEN conjunct2, THEN conjunct1] by simp_all
  have "out2' 0 = out' 8" using q [rule_format, of 0 0] by simp
  moreover have "out2' 7 = out' 15" using q [rule_format, of 0 7] by simp
  moreover have "out2' 8 = out' 0" using q [rule_format, of 1 0] by simp
  moreover have "out2' 15 = out' 7" using q [rule_format, of 1 7] by simp
  ultimately show ?thesis using run run2 o og ox by simp
qed

text \<open>
  The claim fails when the offset of a frame leaves the range of \<open>int\<close>: with
  three frames and a grid of \<open>1024\<^sup>3\<close> cells, the offset \<open>2 * 1024\<^sup>3\<close> of the last
  frame wraps around to \<open>- 2\<^sup>3\<^sup>1\<close>. The first cell of the slice of that frame
  is not zeroed (it keeps the 1 that \<open>out\<close> held), and cell \<open>- 2\<^sup>3\<^sup>1\<close>, outside
  every slice, is.
\<close>

theorem sasa_slice_offset_wraps:
  "\<exists>out'. sasa exact 3 1 (\<lambda>a. 0) (\<lambda>j. 1) 1 (\<lambda>i. 0) (\<lambda>a. 1) (\<lambda>i. 1024) 1
             (\<lambda>a. 0) (\<lambda>p. 0) (\<lambda>a. 0) = Inr out'
      \<and> out' 0 = 0 \<and> out' (1024 * 1024 * 1024) = 0
      \<and> out' (2 * (1024 * 1024 * 1024)) = 1 \<and> out' (- 2147483648) = 0"
proof -
  have a: "asa_frame exact frame (Suc 0) (\<lambda>j. 1) sp (Suc 0) nb cs (\<lambda>i. 0) g (\<lambda>i. 1024) 1
      = Inr (nb, cs, \<lambda>a. if 0 \<le> a \<and> a < 1073741824 then 0 else g a)"
    for frame sp :: "real farray" and nb cs g
    by (simp add: asa_frame_def atoms_loop.simps atom_step_def zero_grid_eq total_grid_points_def
        int32_def Let_def)
  have o: "grid_offset (\<lambda>i. 1024) i = int32 (int i * 1073741824)" for i
    by (simp add: grid_offset_def total_grid_points_def int32_def)
  show ?thesis
    by (simp add: sasa_def Let_def frames_loop.simps a o int32_def)
qed

subsection \<open>The stop, frame by frame\<close>

text \<open>
  C3. When \<open>n_frames * n_atoms * 3\<close> is an \<open>int\<close>, so that frame \<open>k\<close> is read where
  it lies, from \<open>xyzlist[k * n_atoms * 3]\<close> on: \<open>sasa\<close> stops with \<open>exit(1)\<close>
  exactly when some frame holds a selected atom \<open>i\<close> and another atom \<open>j\<close> at a
  squared distance below \<open>1e-10\<close>; it stops in no other way, and when it stops
  it returns no grid.
\<close>

theorem sasa_stops_on_atoms_on_top:
  assumes ox: "int n_frames * int n_atoms * 3 \<le> INT_MAX"
  shows "(sasa F n_frames n_atoms xyzlist atom_radii n_sphere_points atom_selection_mask out counts
      grid_spacing sphere_points wb1 wb2 = Inl AtomsOnTop
    \<longleftrightarrow> (\<exists>k i j. k < n_frames \<and> i < n_atoms \<and> j < n_atoms \<and> atom_selection_mask i \<noteq> 0 \<and> j \<noteq> i
          \<and> r2_atoms (\<lambda>a. xyzlist (int k * int n_atoms * 3 + int a)) i j < fl F (1 / 10 ^ 10)))
   \<and> sasa F n_frames n_atoms xyzlist atom_radii n_sphere_points atom_selection_mask out counts
        grid_spacing sphere_points wb1 wb2 \<noteq> Inl DivideByZero"
proof -
  let ?fr = "\<lambda>k. (\<lambda>a. xyzlist (int k * int n_atoms * 3 + int a))"
  have "(\<exists>k. k < n_frames \<and> degenerate F (frame_at xyzlist n_atoms k) n_atoms atom_selection_mask)
    \<longleftrightarrow> (\<exists>k. k < n_frames \<and> degenerate F (?fr k) n_atoms atom_selection_mask)"
    by (intro arg_cong [where f = Ex] ext conj_cong refl) (simp add: frame_at_exact [OF ox])
  also have "\<dots> \<longleftrightarrow> (\<exists>k i j. k < n_frames \<and> i < n_atoms \<and> j < n_atoms \<and> atom_selection_mask i \<noteq> 0
          \<and> j \<noteq> i \<and> r2_atoms (?fr k) i j < fl F (1 / 10 ^ 10))"
    unfolding degenerate_def on_top_def by blast
  finally show ?thesis
    by (simp add: sasa_error_iff)
qed

theorem sasa_stops_on_atoms_on_top_witness:
  "int 2 * int 2 * 3 \<le> INT_MAX
   \<and> r2_atoms (\<lambda>a. [0, 0, 0, 1, 1, 1, 5, 0, 0, 5, 0, 0] ! nat (int 1 * int 2 * 3 + int a)) 1 0
       < fl exact (1 / 10 ^ 10)
   \<and> sasa exact 2 2 (\<lambda>a. [0, 0, 0, 1, 1, 1, 5, 0, 0, 5, 0, 0] ! nat a) (\<lambda>j. 1) 1
        (\<lambda>i. [0, 1] ! i) (\<lambda>a. 5) (\<lambda>i. [2, 2, 2] ! i) 1 (\<lambda>a. 0) (\<lambda>p. 0) (\<lambda>a. 0)
      = Inl AtomsOnTop"
proof -
  let ?x = "\<lambda>a::int. [0, 0, 0, 1, 1, 1, 5, 0, 0, 5, 0, 0 :: real] ! nat a"
  let ?m = "\<lambda>i::nat. [0, 1 :: int] ! i"
  have ox: "int 2 * int 2 * 3 \<le> INT_MAX" by (simp add: INT_MAX_def)
  have r: "r2_atoms (\<lambda>a. ?x (int 1 * int 2 * 3 + int a)) 1 0 < fl exact (1 / 10 ^ 10)"
    by (simp add: r2_atoms_def r_at_def exact_sel)
  then have "(1::nat) < 2 \<and> (1::nat) < 2 \<and> (0::nat) < 2 \<and> ?m 1 \<noteq> 0 \<and> (0::nat) \<noteq> 1
      \<and> r2_atoms (\<lambda>a. ?x (int 1 * int 2 * 3 + int a)) 1 0 < fl exact (1 / 10 ^ 10)"
    by simp
  then have "\<exists>k i j. k < (2::nat) \<and> i < (2::nat) \<and> j < 2 \<and> ?m i \<noteq> 0 \<and> j \<noteq> i
      \<and> r2_atoms (\<lambda>a. ?x (int k * int 2 * 3 + int a)) i j < fl exact (1 / 10 ^ 10)"
    by blast
  then have "sasa exact 2 2 ?x (\<lambda>j. 1) 1 ?m (\<lambda>a. 5) (\<lambda>i. [2, 2, 2] ! i) 1 (\<lambda>a. 0) (\<lambda>p. 0) (\<lambda>a. 0)
      = Inl AtomsOnTop"
    by (simp only: sasa_stops_on_atoms_on_top [OF ox, THEN conjunct1])
  with r ox show ?thesis by simp
qed

text \<open>
  Beyond the bound on \<open>n_frames * n_atoms * 3\<close> a frame is not read where it
  lies: with 100000 atoms the offset \<open>7159 * 100000 * 3\<close> of frame 7159 wraps
  around, and the frame is read from \<open>2147267296\<close> elements before \<open>xyzlist\<close>.
\<close>

theorem frame_offset_wraps:
  "frame_at xyzlist 100000 7159 a = xyzlist (int a - 2147267296)"
  by (simp add: frame_at_def int32_def)

subsection \<open>Rounding to binary32\<close>








end
